theory Spec2Isabelle
  imports Main "HOL-Library.Multiset"
begin

section \<open>Boards, moves and Python errors\<close>

text \<open>
  A board is a Python list of rows (8-puzzle) or a tuple of tuples (15-puzzle); both are
  modelled as a list of integer lists. A position is a pair of row and column indices.
  The four move labels are the string constants 'UP', 'DOWN', 'LEFT' and 'RIGHT' of the
  source. The only exceptions the search code can raise on a grid of the right shape are
  the TypeError of unpacking \<open>None\<close> (no blank found) and the KeyError of
  \<open>set.remove\<close>.
\<close>

type_synonym board = "int list list"

datatype move = UP | DOWN | LEFT | RIGHT

datatype py_error = TypeError | KeyError

text \<open>
  The tuple assignment
  \<open>nb[x][y], nb[nx][ny] = nb[nx][ny], nb[x][y]\<close>
  on a fresh copy of the rows: the right-hand side is read first, then the two cells are
  written in order.
\<close>

definition swap_cells :: "board \<Rightarrow> nat \<times> nat \<Rightarrow> nat \<times> nat \<Rightarrow> board" where
  "swap_cells b p q =
     (let vb = b ! fst p ! snd p;
          vn = b ! fst q ! snd q;
          b1 = b[fst p := (b ! fst p)[snd p := vn]]
      in b1[fst q := (b1 ! fst q)[snd q := vb]])"

section \<open>The 8-puzzle state (8puzzleproblem.py)\<close>

text \<open>The nested loops \<open>for i in range(n): for j in range(n)\<close> visit the cells in row-major order.\<close>

definition cells :: "nat \<Rightarrow> (nat \<times> nat) list" where
  "cells n = concat (map (\<lambda>i. map (\<lambda>j. (i, j)) [0..<n]) [0..<n])"

definition manhattan_distance8 :: "board \<Rightarrow> int" where
  "manhattan_distance8 b =
     foldl (\<lambda>distance (i, j).
              if b ! i ! j \<noteq> 0
              then (let x_goal = (b ! i ! j - 1) div 3; y_goal = (b ! i ! j - 1) mod 3
                    in distance + (\<bar>x_goal - int i\<bar> + \<bar>y_goal - int j\<bar>))
              else distance)
           0 (cells 3)"

datatype PuzzleState =
  PuzzleState (board: board) (parent: "PuzzleState option") (move: "move option")
              (depth: int) (cost: int)

text \<open>The constructor \<open>__init__\<close> computes the cost from the depth and the heuristic.\<close>

definition init_state :: "board \<Rightarrow> PuzzleState option \<Rightarrow> move option \<Rightarrow> int \<Rightarrow> PuzzleState" where
  "init_state b p m d = PuzzleState b p m d (d + manhattan_distance8 b)"

text \<open>\<open>get_blank_pos\<close> returns the first cell holding 0, and falls off the loops (returning \<open>None\<close>) when there is none.\<close>

definition get_blank_pos :: "board \<Rightarrow> (nat \<times> nat) option" where
  "get_blank_pos b = find (\<lambda>(i, j). b ! i ! j = 0) (cells 3)"

definition is_goal :: "PuzzleState \<Rightarrow> bool" where
  "is_goal s = (board s = [[1, 2, 3], [4, 5, 6], [7, 8, 0]])"

definition moves8 :: "(move \<times> int \<times> int) list" where
  "moves8 = [(UP, -1, 0), (DOWN, 1, 0), (LEFT, 0, -1), (RIGHT, 0, 1)]"

definition get_neighbors8 :: "PuzzleState \<Rightarrow> py_error + PuzzleState list" where
  "get_neighbors8 s =
     (case get_blank_pos (board s) of
        None \<Rightarrow> Inl TypeError
      | Some (x, y) \<Rightarrow>
          Inr (concat (map (\<lambda>(mv, dx, dy).
                 let new_x = int x + dx; new_y = int y + dy
                 in if 0 \<le> new_x \<and> new_x < 3 \<and> 0 \<le> new_y \<and> new_y < 3
                    then [init_state (swap_cells (board s) (x, y) (nat new_x, nat new_y))
                                     (Some s) (Some mv) (depth s + 1)]
                    else [])
               moves8)))"

section \<open>The 15-puzzle state (Fifteen_Puzzle_Solver.py)\<close>

definition GOAL_STATE :: board where
  "GOAL_STATE =
     map (\<lambda>i. map (\<lambda>j. if i * 4 + j < 15 then int (i * 4 + j + 1) else 0) [0..<4]) [0..<4]"

text \<open>
  \<open>get_blank_position\<close> only breaks out of the inner loop, so the outer loop goes on and a
  later row holding a 0 overwrites the cached position; the cache itself does not change
  what is returned.
\<close>

definition get_blank_position :: "board \<Rightarrow> (nat \<times> nat) option" where
  "get_blank_position b =
     foldl (\<lambda>pos i. case find (\<lambda>j. b ! i ! j = 0) [0..<4] of
                       None \<Rightarrow> pos
                     | Some j \<Rightarrow> Some (i, j))
           None [0..<4]"

definition manhattan_distance15 :: "board \<Rightarrow> int" where
  "manhattan_distance15 b =
     foldl (\<lambda>distance (i, j).
              let tile = b ! i ! j
              in if tile \<noteq> 0
                 then (let goal_row = (tile - 1) div 4; goal_col = (tile - 1) mod 4
                       in distance + (\<bar>goal_row - int i\<bar> + \<bar>goal_col - int j\<bar>))
                 else distance)
           0 (cells 4)"

definition moves15 :: "(int \<times> int \<times> move) list" where
  "moves15 = [(0, 1, LEFT), (0, -1, RIGHT), (1, 0, UP), (-1, 0, DOWN)]"

definition get_neighbors15 :: "board \<Rightarrow> py_error + (board \<times> move) list" where
  "get_neighbors15 b =
     (case get_blank_position b of
        None \<Rightarrow> Inl TypeError
      | Some (i, j) \<Rightarrow>
          Inr (concat (map (\<lambda>(di, dj, mv).
                 let new_i = int i + di; new_j = int j + dj
                 in if 0 \<le> new_i \<and> new_i < 4 \<and> 0 \<le> new_j \<and> new_j < 4
                    then [(swap_cells b (i, j) (nat new_i, nat new_j), mv)]
                    else [])
               moves15)))"

section \<open>Well-formed boards\<close>

text \<open>
  A board of width \<open>N\<close> is a permutation board when it has \<open>N\<close> rows of \<open>N\<close> cells
  holding each value of \<open>0..N\<^sup>2-1\<close> exactly once.
\<close>

definition grid :: "nat \<Rightarrow> board \<Rightarrow> bool" where
  "grid N b = (length b = N \<and> (\<forall>row \<in> set b. length row = N))"

definition permutation_board :: "nat \<Rightarrow> board \<Rightarrow> bool" where
  "permutation_board N b =
     (grid N b \<and> distinct (concat b) \<and> set (concat b) = set (map int [0..<N * N]))"

text \<open>The geometric meaning of a direction: the position one step away.\<close>

fun step_pos :: "move \<Rightarrow> int \<times> int \<Rightarrow> int \<times> int" where
  "step_pos UP (r, c) = (r - 1, c)"
| "step_pos DOWN (r, c) = (r + 1, c)"
| "step_pos LEFT (r, c) = (r, c - 1)"
| "step_pos RIGHT (r, c) = (r, c + 1)"

fun opposite :: "move \<Rightarrow> move" where
  "opposite UP = DOWN"
| "opposite DOWN = UP"
| "opposite LEFT = RIGHT"
| "opposite RIGHT = LEFT"

definition orth_adjacent :: "nat \<times> nat \<Rightarrow> nat \<times> nat \<Rightarrow> bool" where
  "orth_adjacent p q = (\<bar>int (fst p) - int (fst q)\<bar> + \<bar>int (snd p) - int (snd q)\<bar> = 1)"

text \<open>Board \<open>b'\<close> is board \<open>b\<close> with the contents of cells \<open>p\<close> and \<open>q\<close> exchanged and every other cell kept.\<close>

definition swapped_at :: "nat \<Rightarrow> board \<Rightarrow> board \<Rightarrow> nat \<times> nat \<Rightarrow> nat \<times> nat \<Rightarrow> bool" where
  "swapped_at N b b' p q =
     (\<forall>i<N. \<forall>j<N. b' ! i ! j = (if (i, j) = p then b ! fst q ! snd q
                                else if (i, j) = q then b ! fst p ! snd p else b ! i ! j))"

section \<open>Solvability by inversion parity\<close>

text \<open>Both solvers flatten the board row by row and leave the blank out.\<close>

definition flat_board :: "board \<Rightarrow> int list" where
  "flat_board b = filter (\<lambda>num. num \<noteq> 0) (concat b)"

text \<open>The double loop over \<open>i\<close> and \<open>j\<close> in \<open>range(i + 1, len(flat_board))\<close>.\<close>

definition count_inversions :: "int list \<Rightarrow> nat" where
  "count_inversions fb =
     foldl (\<lambda>inversions i.
              foldl (\<lambda>inversions j. if fb ! i > fb ! j then inversions + 1 else inversions)
                    inversions [i + 1..<length fb])
           0 [0..<length fb]"

definition is_solvable8 :: "board \<Rightarrow> bool" where
  "is_solvable8 b = (count_inversions (flat_board b) mod 2 = 0)"

text \<open>In the 15-puzzle solver \<open>blank_row\<close> starts at 0 and is overwritten at every 0 met.\<close>

definition blank_row :: "board \<Rightarrow> nat" where
  "blank_row b =
     foldl (\<lambda>br (i, row). foldl (\<lambda>br num. if num \<noteq> 0 then br else i) br row)
           0 (enumerate 0 b)"

definition is_solvable15 :: "board \<Rightarrow> bool" where
  "is_solvable15 b =
     (let inversions = count_inversions (flat_board b);
          blank_row_from_bottom = 3 - int (blank_row b)
      in (blank_row_from_bottom mod 2 = 0) = (inversions mod 2 = 0))"

section \<open>The iterative-deepening solver (IDSSolver)\<close>

text \<open>
  The solver object. The sets hold hashes of states; the built-in \<open>hash\<close> of a tuple of
  tuples is not part of the repository and is a parameter \<open>H\<close> of the model. The goal state
  is the constant \<open>GOAL_STATE\<close>.
\<close>

record 'h IDSSolver =
  initial_state15 :: board
  visited_states :: "'h set"
  current_path :: "'h set"
  solution :: "move list"

definition new_IDSSolver :: "board \<Rightarrow> 'h IDSSolver" where
  "new_IDSSolver b =
     \<lparr>initial_state15 = b, visited_states = {}, current_path = {}, solution = []\<rparr>"

text \<open>
  \<open>dls\<close> and the loop over the neighbours inside it. The result is the returned boolean
  and the solver afterwards, or the exception raised.
\<close>

function dls :: "(board \<Rightarrow> 'h) \<Rightarrow> 'h IDSSolver \<Rightarrow> board \<Rightarrow> int \<Rightarrow> move list
                    \<Rightarrow> py_error + bool \<times> 'h IDSSolver"
  and dls_for :: "(board \<Rightarrow> 'h) \<Rightarrow> 'h IDSSolver \<Rightarrow> (board \<times> move) list \<Rightarrow> int \<Rightarrow> move list
                    \<Rightarrow> py_error + bool \<times> 'h IDSSolver"
where
  "dls H S state d path =
     (if d < 0 then Inr (False, S)
      else if state = GOAL_STATE then Inr (True, S\<lparr>solution := path\<rparr>)
      else if manhattan_distance15 state > d then Inr (False, S)
      else if H state \<in> current_path S then Inr (False, S)
      else (case get_neighbors15 state of
              Inl e \<Rightarrow> Inl e
            | Inr ns \<Rightarrow>
               (case dls_for H (S\<lparr>current_path := insert (H state) (current_path S)\<rparr>) ns d path of
                  Inl e \<Rightarrow> Inl e
                | Inr (found, S') \<Rightarrow>
                    if found then Inr (True, S')
                    else if H state \<in> current_path S'
                         then Inr (False, S'\<lparr>current_path := current_path S' - {H state}\<rparr>)
                         else Inl KeyError)))"
| "dls_for H S [] d path = Inr (False, S)"
| "dls_for H S ((next_state, mv) # rest) d path =
     (if H next_state \<in> visited_states S then dls_for H S rest d path
      else (case dls H S next_state (d - 1) (path @ [mv]) of
              Inl e \<Rightarrow> Inl e
            | Inr (found, S') \<Rightarrow>
                if found then Inr (True, S') else dls_for H S' rest d path))"
  by pat_completeness auto
termination
  by (relation "measures
        [\<lambda>x. case x of Inl (H, S, st, d, p) \<Rightarrow> 2 * nat (d + 1)
                      | Inr (H, S, ns, d, p) \<Rightarrow> 2 * nat (d + 1) - 1,
         \<lambda>x. case x of Inl (H, S, st, d, p) \<Rightarrow> 0
                      | Inr (H, S, ns, d, p) \<Rightarrow> length ns]") auto

text \<open>
  The loop \<open>for depth in range(max_depth)\<close> of \<open>solve\<close>. Each round prints the depth,
  clears both sets and runs \<open>dls\<close>; the printed depths are collected in \<open>out\<close>.
\<close>

fun solve_depths :: "(board \<Rightarrow> 'h) \<Rightarrow> 'h IDSSolver \<Rightarrow> int list \<Rightarrow> int list
                       \<Rightarrow> py_error + move list option \<times> 'h IDSSolver \<times> int list" where
  "solve_depths H S [] out = Inr (None, S, out)"
| "solve_depths H S (d # ds) out =
     (let S1 = S\<lparr>visited_states := {}, current_path := {}\<rparr>
      in case dls H S1 (initial_state15 S1) d [] of
           Inl e \<Rightarrow> Inl e
         | Inr (found, S2) \<Rightarrow>
             if found then Inr (Some (solution S2), S2, out @ [d])
             else solve_depths H S2 ds (out @ [d]))"

definition solve15 :: "(board \<Rightarrow> 'h) \<Rightarrow> 'h IDSSolver \<Rightarrow> int
                       \<Rightarrow> py_error + move list option \<times> 'h IDSSolver \<times> int list" where
  "solve15 H S max_depth =
     (if \<not> is_solvable15 (initial_state15 S) then Inr (None, S, [])
      else solve_depths H S (map int [0..<nat max_depth]) [])"

text \<open>
  Replaying a move of the 15-puzzle on a board, as the claim about returned solutions reads
  it: the blank is exchanged with the adjacent cell the label designates, and a label whose
  cell is off the board cannot be replayed.
\<close>

definition apply_move15 :: "board \<Rightarrow> move \<Rightarrow> board option" where
  "apply_move15 b m =
     (case get_blank_position b of
        None \<Rightarrow> None
      | Some (i, j) \<Rightarrow>
          (case step_pos (opposite m) (int i, int j) of
             (r, c) \<Rightarrow> if 0 \<le> r \<and> r < 4 \<and> 0 \<le> c \<and> c < 4
                       then Some (swap_cells b (i, j) (nat r, nat c)) else None))"

fun apply_moves15 :: "board \<Rightarrow> move list \<Rightarrow> board option" where
  "apply_moves15 b [] = Some b"
| "apply_moves15 b (m # ms) =
     (case apply_move15 b m of None \<Rightarrow> None | Some b' \<Rightarrow> apply_moves15 b' ms)"

text \<open>What a call of \<open>dls\<close> (and of its loop) guarantees: a failed call leaves the solver as it was; a successful call has stored a path that extends the given one by moves leading to the goal within the depth budget.\<close>

definition dls_ok :: "move list \<Rightarrow> int \<Rightarrow> board \<Rightarrow> 'h IDSSolver \<Rightarrow> py_error + bool \<times> 'h IDSSolver \<Rightarrow> bool" where
  "dls_ok path d state S r =
     (\<exists>found S'. r = Inr (found, S') \<and> (\<not> found \<longrightarrow> S' = S) \<and>
        (found \<longrightarrow> (\<exists>ms. solution S' = path @ ms \<and> apply_moves15 state ms = Some GOAL_STATE
                          \<and> int (length ms) \<le> d)))"

definition dls_for_ok :: "move list \<Rightarrow> int \<Rightarrow> (board \<times> move) list \<Rightarrow> 'h IDSSolver \<Rightarrow> py_error + bool \<times> 'h IDSSolver \<Rightarrow> bool" where
  "dls_for_ok path d ns S r =
     (\<exists>found S'. r = Inr (found, S') \<and> (\<not> found \<longrightarrow> S' = S) \<and>
        (found \<longrightarrow> (\<exists>(b, m) \<in> set ns. \<exists>ms. solution S' = path @ m # ms \<and>
                          apply_moves15 b ms = Some GOAL_STATE \<and> int (length ms) \<le> d - 1)))"

section \<open>The binary heap of Python's heapq module\<close>

text \<open>
  Modelled from the spec: the open set is "a min-priority collection ordered by f", kept
  with \<open>heapq.heappush\<close> and \<open>heapq.heappop\<close>. The module \<open>heapq\<close> is the Python standard
  library, not part of the repository; the model follows its array algorithm (append and
  sift towards the root on a push; on a pop move the last item to the root, sift the hole
  down to a leaf along the smaller children, then sift the item back up). Items are
  compared with \<open>PuzzleState.__lt__\<close>, that is by \<open>cost\<close>.
\<close>

definition lt :: "PuzzleState \<Rightarrow> PuzzleState \<Rightarrow> bool" where
  "lt a b = (cost a < cost b)"

function siftdown_loop :: "PuzzleState list \<Rightarrow> nat \<Rightarrow> PuzzleState \<Rightarrow> nat \<Rightarrow> PuzzleState list" where
  "siftdown_loop heap startpos newitem pos =
     (if pos > startpos
      then (let parentpos = (pos - 1) div 2; par = heap ! parentpos
            in if lt newitem par then siftdown_loop (heap[pos := par]) startpos newitem parentpos
               else heap[pos := newitem])
      else heap[pos := newitem])"
  by pat_completeness auto
termination
  by (relation "measure (\<lambda>(heap, startpos, newitem, pos). pos)") auto

definition siftdown :: "PuzzleState list \<Rightarrow> nat \<Rightarrow> nat \<Rightarrow> PuzzleState list" where
  "siftdown heap startpos pos = siftdown_loop heap startpos (heap ! pos) pos"

function siftup_loop :: "PuzzleState list \<Rightarrow> nat \<Rightarrow> PuzzleState list \<times> nat" where
  "siftup_loop heap pos =
     (let endpos = length heap; childpos = 2 * pos + 1
      in if childpos < endpos
         then (let rightpos = childpos + 1;
                   childpos = (if rightpos < endpos \<and> \<not> lt (heap ! childpos) (heap ! rightpos)
                               then rightpos else childpos)
               in siftup_loop (heap[pos := heap ! childpos]) childpos)
         else (heap, pos))"
  by pat_completeness auto
termination
  by (relation "measure (\<lambda>(heap, pos). length heap - pos)") (auto simp: Let_def)

definition siftup :: "PuzzleState list \<Rightarrow> nat \<Rightarrow> PuzzleState list" where
  "siftup heap pos =
     (let newitem = heap ! pos
      in case siftup_loop heap pos of
           (heap', pos') \<Rightarrow> siftdown (heap'[pos' := newitem]) pos pos')"

definition heappush :: "PuzzleState list \<Rightarrow> PuzzleState \<Rightarrow> PuzzleState list" where
  "heappush heap item = siftdown (heap @ [item]) 0 (length heap)"

text \<open>\<open>heappop\<close> is only called on a non-empty heap (the loop condition is \<open>while open_set\<close>).\<close>

definition heappop :: "PuzzleState list \<Rightarrow> PuzzleState \<times> PuzzleState list" where
  "heappop heap =
     (let lastelt = last heap; heap' = butlast heap
      in if heap' \<noteq> [] then (heap' ! 0, siftup (heap'[0 := lastelt]) 0)
         else (lastelt, heap'))"

section \<open>The best-first solver (PuzzleSolver)\<close>

record PuzzleSolver =
  initial_state8 :: PuzzleState
  moves_made :: "move option list"

definition new_PuzzleSolver :: "board \<Rightarrow> PuzzleSolver" where
  "new_PuzzleSolver initial_board =
     \<lparr>initial_state8 = init_state initial_board None None 0, moves_made = []\<rparr>"

text \<open>The returned dictionary; \<open>time_taken\<close> is a wall-clock measurement and is left out.\<close>

record result8 =
  moves :: "move option list"
  nodes_explored :: nat
  solution_depth :: int

text \<open>The loop \<open>for neighbor in current_state.get_neighbors()\<close>; the closed set holds states compared and hashed by their board.\<close>

fun push_neighbors :: "PuzzleState list \<Rightarrow> board set \<Rightarrow> PuzzleState list \<Rightarrow> PuzzleState list" where
  "push_neighbors open_set closed_set [] = open_set"
| "push_neighbors open_set closed_set (neighbor # rest) =
     (if board neighbor \<in> closed_set then push_neighbors open_set closed_set rest
      else push_neighbors (heappush open_set neighbor) closed_set rest)"

text \<open>
  The loop \<open>while open_set\<close>. It returns the goal state popped and the closed set, or
  \<open>None\<close> when the open set runs empty, or the exception raised; a run that never ends has
  no value.
\<close>

partial_function (option) astar_loop ::
  "PuzzleState list \<Rightarrow> board set \<Rightarrow> (py_error + (PuzzleState \<times> board set) option) option" where
  "astar_loop open_set closed_set =
     (if open_set = [] then Some (Inr None)
      else (case heappop open_set of
              (current_state, open1) \<Rightarrow>
                if is_goal current_state then Some (Inr (Some (current_state, closed_set)))
                else (case get_neighbors8 current_state of
                        Inl e \<Rightarrow> Some (Inl e)
                      | Inr ns \<Rightarrow>
                          astar_loop
                            (push_neighbors open1 (insert (board current_state) closed_set) ns)
                            (insert (board current_state) closed_set))))"

text \<open>\<open>get_solution_path\<close> inserts the moves at the front of \<open>self.moves_made\<close> while walking the parent links.\<close>

fun get_solution_path :: "move option list \<Rightarrow> PuzzleState \<Rightarrow> move option list" where
  "get_solution_path mm (PuzzleState b None m d c) = mm"
| "get_solution_path mm (PuzzleState b (Some p) m d c) = get_solution_path (m # mm) p"

definition solve8 :: "PuzzleSolver \<Rightarrow> (py_error + result8 option \<times> PuzzleSolver) option" where
  "solve8 S =
     (if \<not> is_solvable8 (board (initial_state8 S)) then Some (Inr (None, S))
      else (case astar_loop (heappush [] (initial_state8 S)) {} of
              None \<Rightarrow> None
            | Some (Inl e) \<Rightarrow> Some (Inl e)
            | Some (Inr None) \<Rightarrow> Some (Inr (None, S))
            | Some (Inr (Some (current_state, closed_set))) \<Rightarrow>
                (let mm = get_solution_path (moves_made S) current_state
                 in Some (Inr (Some \<lparr>moves = mm, nodes_explored = card closed_set,
                                      solution_depth = depth current_state\<rparr>,
                               S\<lparr>moves_made := mm\<rparr>)))))"

text \<open>
  Replaying a move of the 8-puzzle: the blank is exchanged with the cell one step in the
  direction of the label; \<open>None\<close> is not a move.
\<close>

definition apply_move8 :: "board \<Rightarrow> move option \<Rightarrow> board option" where
  "apply_move8 b mo =
     (case mo of
        None \<Rightarrow> None
      | Some m \<Rightarrow>
         (case get_blank_pos b of
            None \<Rightarrow> None
          | Some (x, y) \<Rightarrow>
             (case step_pos m (int x, int y) of
                (r, c) \<Rightarrow> if 0 \<le> r \<and> r < 3 \<and> 0 \<le> c \<and> c < 3
                          then Some (swap_cells b (x, y) (nat r, nat c)) else None)))"

fun apply_moves8 :: "board \<Rightarrow> move option list \<Rightarrow> board option" where
  "apply_moves8 b [] = Some b"
| "apply_moves8 b (m # ms) =
     (case apply_move8 b m of None \<Rightarrow> None | Some b' \<Rightarrow> apply_moves8 b' ms)"

definition goal8 :: board where
  "goal8 = [[1, 2, 3], [4, 5, 6], [7, 8, 0]]"

definition b8_one_move :: board where
  "b8_one_move = [[1, 2, 3], [4, 5, 6], [7, 0, 8]]"

section \<open>Example boards\<close>

text \<open>The 15-puzzle goal with tiles 14 and 15 exchanged (odd parity), and the goal with the blank moved one cell to the left.\<close>

definition b_unsolvable :: board where
  "b_unsolvable = [[1,2,3,4],[5,6,7,8],[9,10,11,12],[13,15,14,0]]"

definition b_one_move :: board where
  "b_one_move = [[1,2,3,4],[5,6,7,8],[9,10,11,12],[13,14,0,15]]"

section \<open>Search nodes and their ancestry\<close>

text \<open>
  A node is valid for a start board when its chain of parents ends in a root holding the
  start board at depth 0, every link is a legal move from the parent's board, the depth
  counts the links and the cost is the depth plus the heuristic.
\<close>

fun valid_node :: "board \<Rightarrow> PuzzleState \<Rightarrow> bool" where
  "valid_node start (PuzzleState b None m d c) =
     (b = start \<and> d = 0 \<and> c = d + manhattan_distance8 b)"
| "valid_node start (PuzzleState b (Some p) m d c) =
     (valid_node start p \<and> apply_move8 (board p) m = Some b \<and> d = depth p + 1 \<and>
      c = d + manhattan_distance8 b)"

section \<open>Replaying a move sequence\<close>

text \<open>
  Replaying a returned move sequence on a board, independently of the solvers' own blank
  finders: the board must hold exactly one 0 among its \<open>N\<close> by \<open>N\<close> cells, and a move
  exchanges it with the adjacent cell the engine's convention designates. In the 3x3
  engine the label is the direction the blank moves; in the 4x4 engine it is the direction
  the tile moves, so the blank goes the opposite way. A label whose cell is off the board,
  or a label \<open>None\<close>, cannot be replayed.
\<close>

definition blank_cells :: "nat \<Rightarrow> board \<Rightarrow> (nat \<times> nat) list" where
  "blank_cells N b = filter (\<lambda>(i, j). b ! i ! j = 0) (cells N)"

definition replay_move :: "nat \<Rightarrow> (move \<Rightarrow> move) \<Rightarrow> board \<Rightarrow> move \<Rightarrow> board option" where
  "replay_move N conv b m =
     (case blank_cells N b of
        [] \<Rightarrow> None
      | p # ps \<Rightarrow>
          if ps \<noteq> [] then None
          else (case step_pos (conv m) (int (fst p), int (snd p)) of
                  (r, c) \<Rightarrow> if 0 \<le> r \<and> r < int N \<and> 0 \<le> c \<and> c < int N
                            then Some (swap_cells b p (nat r, nat c)) else None))"

fun replay8 :: "board \<Rightarrow> move option list \<Rightarrow> board option" where
  "replay8 b [] = Some b"
| "replay8 b (None # ms) = None"
| "replay8 b (Some m # ms) =
     (case replay_move 3 (\<lambda>m. m) b m of None \<Rightarrow> None | Some b' \<Rightarrow> replay8 b' ms)"

fun replay15 :: "board \<Rightarrow> move list \<Rightarrow> board option" where
  "replay15 b [] = Some b"
| "replay15 b (m # ms) =
     (case replay_move 4 opposite b m of None \<Rightarrow> None | Some b' \<Rightarrow> replay15 b' ms)"

section \<open>The heap invariant\<close>

text \<open>The invariant heapq maintains: no item is smaller than its parent at index \<open>(i - 1) div 2\<close>.\<close>

definition heap_inv :: "PuzzleState list \<Rightarrow> bool" where
  "heap_inv h = (\<forall>i. 0 < i \<and> i < length h \<longrightarrow> cost (h ! ((i - 1) div 2)) \<le> cost (h ! i))"

section \<open>Single iterations of the best-first loop\<close>




section \<open>Distances in the 8-puzzle\<close>

text \<open>Board \<open>b\<close> is within \<open>k\<close> moves of board \<open>a\<close>.\<close>

definition within8 :: "board \<Rightarrow> board \<Rightarrow> nat \<Rightarrow> bool" where
  "within8 a b k = (\<exists>ms. length ms \<le> k \<and> apply_moves8 a ms = Some b)"

text \<open>
  The invariant of the best-first loop for a start board: the open set is a heap of valid
  nodes; the start board is closed or has a node of depth 0 in the open set; the goal is
  never closed; and every neighbour of a closed board is closed or has a node in the open
  set whose depth is at most one more than any number of moves that reaches the closed
  board.
\<close>

definition astar_inv :: "board \<Rightarrow> PuzzleState list \<Rightarrow> board set \<Rightarrow> bool" where
  "astar_inv start open_set closed_set =
     (heap_inv open_set \<and> (\<forall>n \<in> set open_set. valid_node start n) \<and>
      (start \<in> closed_set \<or> (\<exists>n \<in> set open_set. board n = start \<and> depth n = 0)) \<and>
      goal8 \<notin> closed_set \<and>
      (\<forall>c \<in> closed_set. \<forall>k w mo. within8 start c k \<and> apply_move8 c mo = Some w \<longrightarrow>
          w \<in> closed_set \<or> (\<exists>n \<in> set open_set. board n = w \<and> depth n \<le> int k + 1)))"

text \<open>The weight of an open node for the termination argument, with \<open>C\<close> a number of moves that reaches the goal.\<close>

definition node_weight :: "nat \<Rightarrow> PuzzleState \<Rightarrow> nat" where
  "node_weight C n = (if depth n \<le> int C then 5 ^ nat (int C - depth n) else 0)"

definition open_weight :: "nat \<Rightarrow> PuzzleState list \<Rightarrow> nat" where
  "open_weight C open_set = sum_list (map (node_weight C) open_set)"

text \<open>The contribution of one cell to the Manhattan distance of a 3x3 board.\<close>

definition tile_dist8 :: "int \<Rightarrow> nat \<Rightarrow> nat \<Rightarrow> int" where
  "tile_dist8 v i j =
     (if v \<noteq> 0 then \<bar>(v - 1) div 3 - int i\<bar> + \<bar>(v - 1) mod 3 - int j\<bar> else 0)"

section \<open>Inversions, counted structurally\<close>

text \<open>The number of pairs out of ascending order, by recursion on the list; \<open>inv_even\<close> is its parity.\<close>

fun inv_count :: "int list \<Rightarrow> nat" where
  "inv_count [] = 0"
| "inv_count (x # xs) = length (filter (\<lambda>y. x > y) xs) + inv_count xs"

definition inv_even :: "int list \<Rightarrow> bool" where
  "inv_even xs = even (inv_count xs)"

section \<open>Basic facts about grids and neighbours\<close>

lemma cells3: "cells 3 = [(0,0),(0,1),(0,2),(1,0),(1,1),(1,2),(2,0),(2,1),(2,2)]"
  by (simp add: cells_def upt_rec)

lemma cells4: "cells 4 = [(0,0),(0,1),(0,2),(0,3),(1,0),(1,1),(1,2),(1,3),(2,0),(2,1),(2,2),(2,3),(3,0),(3,1),(3,2),(3,3)]"
  by (simp add: cells_def upt_rec)

lemma list3: "length r = 3 \<Longrightarrow> \<exists>a b c. r = [a, b, c]"
  by (auto simp: length_Suc_conv numeral_3_eq_3)

lemma list4: "length r = 4 \<Longrightarrow> \<exists>a b c d. r = [a, b, c, d]"
  by (auto simp: length_Suc_conv numeral_eq_Suc)

lemma grid3_vars:
  assumes "grid 3 b"
  obtains a1 a2 a3 a4 a5 a6 a7 a8 a9 where "b = [[a1,a2,a3],[a4,a5,a6],[a7,a8,a9]]"
proof -
  from assms have l: "length b = 3" and r: "\<forall>row\<in>set b. length row = 3" by (auto simp: grid_def)
  from list3[OF l] obtain r1 r2 r3 where b: "b = [r1, r2, r3]" by blast
  with r have "length r1 = 3" "length r2 = 3" "length r3 = 3" by auto
  with list3 b that show thesis by metis
qed

lemma swap_cells_cell:
  assumes "fst p < length b" "fst q < length b" "snd p < length (b ! fst p)" "snd q < length (b ! fst q)"
  shows "swap_cells b p q ! i ! j = (if (i, j) = q then b ! fst p ! snd p else if (i, j) = p then b ! fst q ! snd q else b ! i ! j)"
  using assms unfolding swap_cells_def Let_def
  by (cases p; cases q) (auto simp: nth_list_update)

lemma set_cells: "set (cells n) = {(i, j). i < n \<and> j < n}"
  by (auto simp: cells_def)

lemma find_SomeD: "find P xs = Some x \<Longrightarrow> x \<in> set xs \<and> P x"
  by (auto simp: find_Some_iff)

lemma get_blank_pos_Some:
  assumes "get_blank_pos b = Some (x, y)"
  shows "x < 3 \<and> y < 3 \<and> b ! x ! y = 0"
  using find_SomeD[OF assms[unfolded get_blank_pos_def]] by (simp add: set_cells)

lemma get_neighbors8_char:
  assumes "get_blank_pos (board s) = Some (x, y)"
  shows "\<exists>ns. get_neighbors8 s = Inr ns \<and>
           (\<forall>n \<in> set ns. \<exists>m. move n = Some m \<and> parent n = Some s \<and> depth n = depth s + 1 \<and>
               cost n = depth n + manhattan_distance8 (board n) \<and>
               (\<exists>r c. step_pos m (int x, int y) = (r, c) \<and>
                  0 \<le> r \<and> r < 3 \<and> 0 \<le> c \<and> c < 3 \<and>
                  board n = swap_cells (board s) (x, y) (nat r, nat c)))"
  using assms by (auto simp: get_neighbors8_def moves8_def init_state_def Let_def)

lemma foldl_upt4: "foldl f a [0..<4] = f (f (f (f a 0) 1) 2) 3"
  by (simp add: upt_rec eval_nat_numeral)

lemma get_blank_position_Some:
  assumes "get_blank_position b = Some (i, j)"
  shows "i < 4 \<and> j < 4 \<and> b ! i ! j = 0"
  using assms unfolding get_blank_position_def foldl_upt4
  by (auto split: option.splits dest!: find_SomeD)

lemma get_neighbors15_char:
  assumes "get_blank_position b = Some (i, j)"
  shows "\<exists>ns. get_neighbors15 b = Inr ns \<and>
           (\<forall>(b', m) \<in> set ns. 
               (\<exists>r c. step_pos (opposite m) (int i, int j) = (r, c) \<and>
                  0 \<le> r \<and> r < 4 \<and> 0 \<le> c \<and> c < 4 \<and>
                  b' = swap_cells b (i, j) (nat r, nat c)))"
  using assms by (auto simp: get_neighbors15_def moves15_def Let_def)

lemma concat_nth_grid:
  "\<forall>r \<in> set b. length r = N \<Longrightarrow> i < length b \<Longrightarrow> j < N \<Longrightarrow> concat b ! (i * N + j) = b ! i ! j"
proof (induction b arbitrary: i)
  case Nil then show ?case by simp
next
  case (Cons r b)
  show ?case
  proof (cases i)
    case 0 with Cons.prems show ?thesis by (simp add: nth_append)
  next
    case (Suc k)
    with Cons.prems have "concat b ! (k * N + j) = b ! k ! j" by (intro Cons.IH) auto
    with Suc Cons.prems show ?thesis by (simp add: nth_append)
  qed
qed

lemma length_concat_grid: "\<forall>r \<in> set b. length r = N \<Longrightarrow> length (concat b) = length b * N"
  by (induction b) auto

lemma concat_update_grid:
  "\<forall>r \<in> set b. length r = N \<Longrightarrow> i < length b \<Longrightarrow> j < N \<Longrightarrow>
   concat (b[i := (b ! i)[j := v]]) = (concat b)[i * N + j := v]"
proof (induction b arbitrary: i)
  case Nil then show ?case by simp
next
  case (Cons r b)
  show ?case
  proof (cases i)
    case 0 with Cons.prems show ?thesis by (simp add: list_update_append)
  next
    case (Suc k)
    with Cons.prems have "concat (b[k := (b ! k)[j := v]]) = (concat b)[k * N + j := v]"
      by (intro Cons.IH) auto
    with Suc Cons.prems show ?thesis by (simp add: list_update_append)
  qed
qed

lemma grid_update: "grid N b \<Longrightarrow> i < N \<Longrightarrow> grid N (b[i := (b ! i)[j := v]])"
  by (auto simp: grid_def dest!: set_update_subset_insert[THEN subsetD])

lemma grid_swap_cells: "grid N b \<Longrightarrow> fst p < N \<Longrightarrow> fst q < N \<Longrightarrow> grid N (swap_cells b p q)"
  unfolding swap_cells_def Let_def by (intro grid_update) 

lemma flat_index_lt: "i < N \<Longrightarrow> j < N \<Longrightarrow> i * N + j < N * (N::nat)"
proof -
  assume a: "i < N" "j < N"
  then have "i * N + j < i * N + N" by simp
  also have "\<dots> = (Suc i) * N" by simp
  also have "\<dots> \<le> N * N" using a by (metis Suc_leI mult.commute mult_le_mono2)
  finally show ?thesis .
qed

lemma concat_swap_cells:
  assumes "grid N b" "fst p < N" "snd p < N" "fst q < N" "snd q < N"
  shows "concat (swap_cells b p q) =
         (concat b)[fst p * N + snd p := concat b ! (fst q * N + snd q),
                    fst q * N + snd q := concat b ! (fst p * N + snd p)]"
proof -
  from assms have r: "\<forall>r \<in> set b. length r = N" and l: "length b = N" by (auto simp: grid_def)
  let ?b1 = "b[fst p := (b ! fst p)[snd p := b ! fst q ! snd q]]"
  have g1: "grid N ?b1" using assms by (intro grid_update)
  then have r1: "\<forall>r \<in> set ?b1. length r = N" and l1: "length ?b1 = N" by (auto simp: grid_def)
  have "concat (swap_cells b p q) = (concat ?b1)[fst q * N + snd q := b ! fst p ! snd p]"
    unfolding swap_cells_def Let_def using concat_update_grid[OF r1, of "fst q" "snd q"] assms l1 by simp
  also have "concat ?b1 = (concat b)[fst p * N + snd p := b ! fst q ! snd q]"
    using concat_update_grid[OF r, of "fst p" "snd p"] assms l by simp
  finally show ?thesis using concat_nth_grid[OF r] assms l by simp
qed

lemma mset_concat_swap_cells:
  assumes "grid N b" "fst p < N" "snd p < N" "fst q < N" "snd q < N"
  shows "mset (concat (swap_cells b p q)) = mset (concat b)"
proof -
  from assms have len: "length (concat b) = N * N"
    using length_concat_grid[of b N] by (simp add: grid_def)
  show ?thesis unfolding concat_swap_cells[OF assms]
    by (rule mset_swap[of "fst q * N + snd q" "concat b" "fst p * N + snd p", unfolded len])
       (use assms in \<open>auto intro: flat_index_lt\<close>)
qed

lemma permutation_board_swap_cells:
  assumes "permutation_board N b" "fst p < N" "snd p < N" "fst q < N" "snd q < N"
  shows "permutation_board N (swap_cells b p q)"
proof -
  from assms have g: "grid N b" by (simp add: permutation_board_def)
  have m: "mset (concat (swap_cells b p q)) = mset (concat b)"
    by (rule mset_concat_swap_cells[OF g assms(2-5)])
  have "distinct (concat (swap_cells b p q)) = distinct (concat b)"
    using m by (rule mset_eq_imp_distinct_iff)
  moreover have "set (concat (swap_cells b p q)) = set (concat b)"
    using m by (rule mset_eq_setD)
  ultimately show ?thesis using assms grid_swap_cells[OF g assms(2) assms(4)]
    by (simp add: permutation_board_def)
qed

lemma flat_index_inj:
  assumes "i * N + j = i' * N + j'" "j < N" "j' < (N::nat)"
  shows "i = i' \<and> j = j'"
proof -
  have a: "(i * N + j) div N = i" using assms(2) by simp
  have b: "(i' * N + j') div N = i'" using assms(3) by simp
  from a b assms(1) have "i = i'" by metis
  with assms(1) show ?thesis by simp
qed

lemma permutation_board_cell_inj:
  assumes "permutation_board N b" "i < N" "j < N" "i' < N" "j' < N" "b ! i ! j = b ! i' ! j'"
  shows "i = i' \<and> j = j'"
proof -
  from assms have r: "\<forall>r \<in> set b. length r = N" and l: "length b = N"
    and d: "distinct (concat b)" by (auto simp: permutation_board_def grid_def)
  have len: "length (concat b) = N * N" using length_concat_grid[OF r] l by simp
  have "concat b ! (i * N + j) = concat b ! (i' * N + j')"
    using concat_nth_grid[OF r] assms l by simp
  then have "i * N + j = i' * N + j'"
    using d len flat_index_lt assms by (simp add: nth_eq_iff_index_eq)
  then show ?thesis using assms by (intro flat_index_inj)
qed

lemma grid_cell_of_concat:
  assumes "grid N b" "v \<in> set (concat b)"
  shows "\<exists>i<N. \<exists>j<N. b ! i ! j = v"
proof -
  from assms obtain r where r: "r \<in> set b" "v \<in> set r" by auto
  then obtain i where i: "i < length b" "b ! i = r" by (auto simp: in_set_conv_nth)
  from r obtain j where j: "j < length r" "r ! j = v" by (auto simp: in_set_conv_nth)
  from assms r i j show ?thesis by (auto simp: grid_def)
qed

lemma permutation_board_has_blank:
  assumes "permutation_board N b" "0 < N"
  shows "\<exists>i<N. \<exists>j<N. b ! i ! j = 0"
proof -
  have "0 < N * N" using assms by simp
  then have "int 0 \<in> set (map int [0..<N * N])" by (simp del: of_nat_0)
  with assms have "0 \<in> set (concat b)" by (simp add: permutation_board_def)
  with assms show ?thesis by (intro grid_cell_of_concat) (simp add: permutation_board_def)
qed

lemma get_blank_pos_permutation:
  assumes "permutation_board 3 b"
  shows "\<exists>x y. get_blank_pos b = Some (x, y) \<and> x < 3 \<and> y < 3 \<and> b ! x ! y = 0
           \<and> (\<forall>i<3. \<forall>j<3. b ! i ! j = 0 \<longrightarrow> i = x \<and> j = y)"
proof -
  from permutation_board_has_blank[OF assms] obtain i j where ij: "i < 3" "j < 3" "b ! i ! j = 0" by auto
  then have "get_blank_pos b \<noteq> None"
    unfolding get_blank_pos_def by (auto simp: find_None_iff set_cells)
  then obtain x y where xy: "get_blank_pos b = Some (x, y)" by auto
  from get_blank_pos_Some[OF xy] permutation_board_cell_inj[OF assms] xy
  show ?thesis by auto
qed

lemma get_blank_position_permutation:
  assumes "permutation_board 4 b"
  shows "\<exists>x y. get_blank_position b = Some (x, y) \<and> x < 4 \<and> y < 4 \<and> b ! x ! y = 0
           \<and> (\<forall>i<4. \<forall>j<4. b ! i ! j = 0 \<longrightarrow> i = x \<and> j = y)"
proof -
  from permutation_board_has_blank[OF assms] obtain i j where ij: "i < 4" "j < 4" "b ! i ! j = 0" by auto
  then have "find (\<lambda>j. b ! i ! j = 0) [0..<4] \<noteq> None" by (auto simp: find_None_iff)
  moreover from ij have "i = 0 \<or> i = 1 \<or> i = 2 \<or> i = 3" by auto
  ultimately have "get_blank_position b \<noteq> None"
    unfolding get_blank_position_def foldl_upt4 by (auto split: option.splits)
  then obtain x y where xy: "get_blank_position b = Some (x, y)" by auto
  from get_blank_position_Some[OF xy] permutation_board_cell_inj[OF assms] xy
  show ?thesis by auto
qed

lemma swapped_at_swap_cells:
  assumes "grid N b" "fst p < N" "snd p < N" "fst q < N" "snd q < N"
  shows "swapped_at N b (swap_cells b p q) p q"
proof -
  from assms have "fst p < length b" "fst q < length b" "snd p < length (b ! fst p)" "snd q < length (b ! fst q)"
    by (auto simp: grid_def)
  from swap_cells_cell[OF this] show ?thesis by (auto simp: swapped_at_def)
qed

lemma step_pos_adjacent:
  assumes "step_pos m (int x, int y) = (r, c)" "0 \<le> r" "0 \<le> c"
  shows "orth_adjacent (x, y) (nat r, nat c)"
  using assms by (cases m) (auto simp: orth_adjacent_def)

lemma get_neighbors8_permutation:
  assumes "permutation_board 3 (board s)"
  shows "\<exists>p ns. get_blank_pos (board s) = Some p \<and> get_neighbors8 s = Inr ns \<and>
           (\<forall>n \<in> set ns. permutation_board 3 (board n) \<and> parent n = Some s \<and>
              (\<exists>q. fst q < 3 \<and> snd q < 3 \<and> orth_adjacent p q \<and>
                   board s ! fst p ! snd p = 0 \<and> swapped_at 3 (board s) (board n) p q))"
proof -
  from get_blank_pos_permutation[OF assms] obtain x y where
    xy: "get_blank_pos (board s) = Some (x, y)" "x < 3" "y < 3" "board s ! x ! y = 0" by blast
  from get_neighbors8_char[OF xy(1)] obtain ns where ns: "get_neighbors8 s = Inr ns"
    and nb: "\<forall>n \<in> set ns. \<exists>m. move n = Some m \<and> parent n = Some s \<and> depth n = depth s + 1 \<and>
               cost n = depth n + manhattan_distance8 (board n) \<and>
               (\<exists>r c. step_pos m (int x, int y) = (r, c) \<and>
                  0 \<le> r \<and> r < 3 \<and> 0 \<le> c \<and> c < 3 \<and>
                  board n = swap_cells (board s) (x, y) (nat r, nat c))" by (elim exE conjE)
  have g: "grid 3 (board s)" using assms by (simp add: permutation_board_def)
  have "permutation_board 3 (board n) \<and> parent n = Some s \<and>
              (\<exists>q. fst q < 3 \<and> snd q < 3 \<and> orth_adjacent (x, y) q \<and>
                   board s ! fst (x, y) ! snd (x, y) = 0 \<and> swapped_at 3 (board s) (board n) (x, y) q)"
    if "n \<in> set ns" for n
  proof -
    from nb[rule_format, OF that] obtain m r c where m: "parent n = Some s" "step_pos m (int x, int y) = (r, c)"
      "0 \<le> r" "r < 3" "0 \<le> c" "c < 3" "board n = swap_cells (board s) (x, y) (nat r, nat c)"
      by blast
    have q: "nat r < 3" "nat c < 3" using m by auto
    have "permutation_board 3 (board n)" unfolding m(7)
      using assms xy q by (intro permutation_board_swap_cells) auto
    moreover have "swapped_at 3 (board s) (board n) (x, y) (nat r, nat c)" unfolding m(7)
      using g xy q by (intro swapped_at_swap_cells) auto
    moreover have "orth_adjacent (x, y) (nat r, nat c)" using m by (intro step_pos_adjacent[of m])
    ultimately show ?thesis using m(1) q xy by (intro conjI exI[of _ "(nat r, nat c)"]) auto
  qed
  with xy ns show ?thesis by blast
qed

lemma get_neighbors15_permutation:
  assumes "permutation_board 4 b"
  shows "\<exists>p ns. get_blank_position b = Some p \<and> get_neighbors15 b = Inr ns \<and>
           (\<forall>(b', m) \<in> set ns. permutation_board 4 b' \<and>
              (\<exists>q. fst q < 4 \<and> snd q < 4 \<and> orth_adjacent p q \<and>
                   b ! fst p ! snd p = 0 \<and> swapped_at 4 b b' p q))"
proof -
  from get_blank_position_permutation[OF assms] obtain x y where
    xy: "get_blank_position b = Some (x, y)" "x < 4" "y < 4" "b ! x ! y = 0" by blast
  from get_neighbors15_char[OF xy(1)] obtain ns where ns: "get_neighbors15 b = Inr ns"
    and nb: "\<forall>(b', m) \<in> set ns.
               (\<exists>r c. step_pos (opposite m) (int x, int y) = (r, c) \<and>
                  0 \<le> r \<and> r < 4 \<and> 0 \<le> c \<and> c < 4 \<and>
                  b' = swap_cells b (x, y) (nat r, nat c))" by (elim exE conjE)
  have g: "grid 4 b" using assms by (simp add: permutation_board_def)
  have "permutation_board 4 b' \<and>
              (\<exists>q. fst q < 4 \<and> snd q < 4 \<and> orth_adjacent (x, y) q \<and>
                   b ! fst (x, y) ! snd (x, y) = 0 \<and> swapped_at 4 b b' (x, y) q)"
    if "(b', m) \<in> set ns" for b' m
  proof -
    from nb that obtain r c where m: "step_pos (opposite m) (int x, int y) = (r, c)"
      "0 \<le> r" "r < 4" "0 \<le> c" "c < 4" "b' = swap_cells b (x, y) (nat r, nat c)"
      by blast
    have q: "nat r < 4" "nat c < 4" using m by auto
    have "permutation_board 4 b'" unfolding m(6)
      using assms xy q by (intro permutation_board_swap_cells) auto
    moreover have "swapped_at 4 b b' (x, y) (nat r, nat c)" unfolding m(6)
      using g xy q by (intro swapped_at_swap_cells) auto
    moreover have "orth_adjacent (x, y) (nat r, nat c)" using m by (intro step_pos_adjacent[of "opposite m"])
    ultimately show ?thesis using q xy by (intro conjI exI[of _ "(nat r, nat c)"]) auto
  qed
  with xy ns show ?thesis by blast
qed

section \<open>Depth-limited search\<close>

lemma neighbor15_apply_move:
  assumes "get_neighbors15 b = Inr ns" "(b', m) \<in> set ns"
  shows "apply_move15 b m = Some b'"
  using assms
  by (auto simp: get_neighbors15_def apply_move15_def moves15_def Let_def
           split: option.splits if_splits)

lemma apply_moves15_append:
  "apply_moves15 b (xs @ ys) = (case apply_moves15 b xs of None \<Rightarrow> None | Some b' \<Rightarrow> apply_moves15 b' ys)"
  by (induction xs arbitrary: b) (auto split: option.splits)

lemma neighbors15_permutation:
  assumes "permutation_board 4 b"
  shows "\<exists>ns. get_neighbors15 b = Inr ns \<and> (\<forall>(b', m) \<in> set ns. permutation_board 4 b')"
  using get_neighbors15_permutation[OF assms] by fastforce

lemma dls_for_ok_Cons:
  assumes "dls_for_ok path d rest S r"
  shows "dls_for_ok path d (x # rest) S r"
  using assms unfolding dls_for_ok_def
  apply (elim exE conjE)
  subgoal for found S'
    apply (rule exI[of _ found], rule exI[of _ S'])
    apply (intro conjI impI)
      apply assumption
     apply simp
    apply (drule (1) mp)
    apply (erule bexE)
    subgoal for bm by (rule bexI[of _ bm]) simp_all
    done
  done

lemma dls_sound:
  "permutation_board 4 state \<Longrightarrow> dls_ok path d state S (dls H S state d path)"
  "(\<forall>(b, m) \<in> set ns. permutation_board 4 b) \<Longrightarrow> dls_for_ok path d ns S (dls_for H S ns d path)"
proof (induction H S state d path and H S ns d path rule: dls_dls_for.induct)
  case (1 H S state d path)
  show ?case
  proof (cases "d < 0 \<or> state = GOAL_STATE \<or> manhattan_distance15 state > d \<or> H state \<in> current_path S")
    case True
    then show ?thesis by (auto simp: dls_ok_def)
  next
    case False
    from neighbors15_permutation[OF "1.prems"] obtain ns where
      ns: "get_neighbors15 state = Inr ns" "\<forall>(b', m) \<in> set ns. permutation_board 4 b'" by blast
    let ?S1 = "S\<lparr>current_path := insert (H state) (current_path S)\<rparr>"
    from False have c: "\<not> d < 0" "state \<noteq> GOAL_STATE" "\<not> d < manhattan_distance15 state"
      "H state \<notin> current_path S" by auto
    have e: "dls H S state d path =
        (case dls_for H ?S1 ns d path of
                  Inl e \<Rightarrow> Inl e
                | Inr (found, S') \<Rightarrow>
                    if found then Inr (True, S')
                    else if H state \<in> current_path S'
                         then Inr (False, S'\<lparr>current_path := current_path S' - {H state}\<rparr>)
                         else Inl KeyError)"
      using c ns(1) by simp
    have ih: "dls_for_ok path d ns ?S1 (dls_for H ?S1 ns d path)"
      by (rule "1.IH"[OF c ns(1) ns(2)])
    then obtain found S' where r: "dls_for H ?S1 ns d path = Inr (found, S')"
      "\<not> found \<longrightarrow> S' = ?S1"
      "found \<longrightarrow> (\<exists>(b, m) \<in> set ns. \<exists>ms. solution S' = path @ m # ms \<and>
                          apply_moves15 b ms = Some GOAL_STATE \<and> int (length ms) \<le> d - 1)"
      unfolding dls_for_ok_def by (elim exE conjE)
    show ?thesis
    proof (cases found)
      case True
      with r(3) obtain b m ms where bm: "(b, m) \<in> set ns" "solution S' = path @ m # ms"
        "apply_moves15 b ms = Some GOAL_STATE" "int (length ms) \<le> d - 1" by auto
      have "apply_moves15 state (m # ms) = Some GOAL_STATE"
        using neighbor15_apply_move[OF ns(1) bm(1)] bm(3) by simp
      moreover have "int (length (m # ms)) \<le> d" using bm(4) by simp
      ultimately have "\<exists>ms. solution S' = path @ ms \<and> apply_moves15 state ms = Some GOAL_STATE
                          \<and> int (length ms) \<le> d" using bm(2) by blast
      moreover have "dls H S state d path = Inr (True, S')"
        using e r(1) True by simp
      ultimately show ?thesis unfolding dls_ok_def by blast
    next
      case F: False
      with r(2) have "S' = ?S1" by simp
      then have "dls H S state d path = Inr (False, S)"
        using e r(1) F c(4) by simp
      then show ?thesis unfolding dls_ok_def by blast
    qed
  qed
next
  case (2 H S d path)
  then show ?case by (auto simp: dls_for_ok_def)
next
  case (3 H S next_state mv rest d path)
  show ?case
  proof (cases "H next_state \<in> visited_states S")
    case True
    with 3 have "dls_for_ok path d rest S (dls_for H S rest d path)" by auto
    with True show ?thesis by (simp add: dls_for_ok_Cons)
  next
    case False
    have "dls_ok (path @ [mv]) (d - 1) next_state S (dls H S next_state (d - 1) (path @ [mv]))"
      using "3.IH"(2)[OF False] "3.prems" by auto
    then obtain found S' where r: "dls H S next_state (d - 1) (path @ [mv]) = Inr (found, S')"
      "\<not> found \<longrightarrow> S' = S"
      "found \<longrightarrow> (\<exists>ms. solution S' = (path @ [mv]) @ ms \<and> apply_moves15 next_state ms = Some GOAL_STATE
                          \<and> int (length ms) \<le> d - 1)"
      unfolding dls_ok_def by (elim exE conjE)
    show ?thesis
    proof (cases found)
      case True
      with r False show ?thesis unfolding dls_for_ok_def
        by (intro exI[of _ True] exI[of _ S']) auto
    next
      case F: False
      with r have S': "S' = S" by simp
      have "dls_for_ok path d rest S' (dls_for H S' rest d path)"
        using "3.IH"(3)[OF False r(1) refl F] "3.prems" by auto
      with r(1) F False S' show ?thesis by (simp add: dls_for_ok_Cons)
    qed
  qed
qed

lemma solve_depths_ok:
  assumes "permutation_board 4 (initial_state15 S)"
  shows "\<exists>res S' k. solve_depths H S ds out = Inr (res, S', out @ take k ds) \<and> k \<le> length ds \<and>
           (case res of None \<Rightarrow> k = length ds
            | Some p \<Rightarrow> apply_moves15 (initial_state15 S) p = Some GOAL_STATE \<and> 0 < k \<and>
                        int (length p) \<le> ds ! (k - 1))"
  using assms
proof (induction ds arbitrary: S out)
  case Nil
  show ?case by (rule exI[of _ None], rule exI[of _ S], rule exI[of _ 0]) simp
next
  case (Cons d ds)
  let ?S1 = "S\<lparr>visited_states := {}, current_path := {}\<rparr>"
  have p: "permutation_board 4 (initial_state15 ?S1)" using Cons.prems by simp
  from dls_sound(1)[OF p, of "[]" d ?S1 H]
  obtain found S2 where r: "dls H ?S1 (initial_state15 ?S1) d [] = Inr (found, S2)"
    "\<not> found \<longrightarrow> S2 = ?S1"
    "found \<longrightarrow> (\<exists>ms. solution S2 = [] @ ms \<and> apply_moves15 (initial_state15 ?S1) ms = Some GOAL_STATE
                          \<and> int (length ms) \<le> d)"
    unfolding dls_ok_def by (elim exE conjE)
  show ?case
  proof (cases found)
    case True
    with r(3) have s: "apply_moves15 (initial_state15 S) (solution S2) = Some GOAL_STATE"
      "int (length (solution S2)) \<le> d" by auto
    have e: "solve_depths H S (d # ds) out = Inr (Some (solution S2), S2, out @ [d])"
      using r(1) True by (simp add: Let_def del: dls.simps)
    show ?thesis
      by (rule exI[of _ "Some (solution S2)"], rule exI[of _ S2], rule exI[of _ 1])
         (use e s in simp)
  next
    case False
    with r(2) have S2: "S2 = ?S1" by simp
    have e: "solve_depths H S (d # ds) out = solve_depths H ?S1 ds (out @ [d])"
      using r(1) False S2 by (simp add: Let_def del: dls.simps)
    from Cons.IH[OF p, of "out @ [d]"] obtain res S' k where
      ih: "solve_depths H ?S1 ds (out @ [d]) = Inr (res, S', (out @ [d]) @ take k ds)" "k \<le> length ds"
          "(case res of None \<Rightarrow> k = length ds
            | Some p \<Rightarrow> apply_moves15 (initial_state15 ?S1) p = Some GOAL_STATE \<and> 0 < k \<and>
                        int (length p) \<le> ds ! (k - 1))" by (elim exE conjE)
    show ?thesis
      by (rule exI[of _ res], rule exI[of _ S'], rule exI[of _ "Suc k"])
         (use e ih in \<open>auto split: option.splits\<close>)
  qed
qed

lemma not_solvable_b_unsolvable: "\<not> is_solvable15 b_unsolvable"
  by code_simp

lemma solvable_b_one_move: "is_solvable15 b_one_move"
  by code_simp

lemma manhattan_b_one_move: "manhattan_distance15 b_one_move = 1"
  by code_simp

lemma b_one_move_not_goal: "b_one_move \<noteq> GOAL_STATE"
  by code_simp

lemma permutation_b_one_move: "permutation_board 4 b_one_move"
  by (auto simp: permutation_board_def grid_def b_one_move_def upt_rec)

lemma permutation_b_unsolvable: "permutation_board 4 b_unsolvable"
  by (auto simp: permutation_board_def grid_def b_unsolvable_def upt_rec)

lemma solve15_b_unsolvable:
  "solve15 H (new_IDSSolver b_unsolvable) 31 = Inr (None, new_IDSSolver b_unsolvable, [])"
  using not_solvable_b_unsolvable by (simp add: solve15_def new_IDSSolver_def)

lemma solve15_b_one_move:
  "solve15 H (new_IDSSolver b_one_move) 1 = Inr (None, new_IDSSolver b_one_move, [0])"
  using solvable_b_one_move manhattan_b_one_move b_one_move_not_goal
  by (simp add: solve15_def new_IDSSolver_def Let_def)

lemma solve15_shape:
  assumes "permutation_board 4 (initial_state15 S)" "is_solvable15 (initial_state15 S)"
  shows "\<exists>res S' k. solve15 H S max_depth = Inr (res, S', map int [0..<k]) \<and> k \<le> nat max_depth \<and>
           (case res of None \<Rightarrow> k = nat max_depth
            | Some p \<Rightarrow> apply_moves15 (initial_state15 S) p = Some GOAL_STATE \<and> 0 < k \<and>
                        length p < k)"
proof -
  let ?ds = "map int [0..<nat max_depth]"
  from solve_depths_ok[OF assms(1), of H ?ds "[]"] obtain res S' k where
    r: "solve_depths H S ?ds [] = Inr (res, S', [] @ take k ?ds)" "k \<le> length ?ds"
       "(case res of None \<Rightarrow> k = length ?ds
            | Some p \<Rightarrow> apply_moves15 (initial_state15 S) p = Some GOAL_STATE \<and> 0 < k \<and>
                        int (length p) \<le> ?ds ! (k - 1))" by (elim exE conjE)
  have t: "take k ?ds = map int [0..<k]" using r(2) by (simp add: take_map min_def)
  have "case res of None \<Rightarrow> k = nat max_depth
            | Some p \<Rightarrow> apply_moves15 (initial_state15 S) p = Some GOAL_STATE \<and> 0 < k \<and>
                        length p < k"
    using r(2,3) by (cases res) auto
  with r(1,2) t assms(2) show ?thesis
    by (intro exI[of _ res] exI[of _ S'] exI[of _ k]) (simp add: solve15_def)
qed

section \<open>A run of the best-first solver\<close>

lemmas heap_eval = heappop_def heappush_def siftup_def siftdown_def lt_def Let_def
  get_neighbors8_def get_blank_pos_def cells3 moves8_def init_state_def swap_cells_def
  is_goal_def manhattan_distance8_def

lemma heappush_root_b8_one_move:
  "heappush [] (initial_state8 (new_PuzzleSolver b8_one_move)) =
   [PuzzleState b8_one_move None None 0 1]"
  by (simp add: heap_eval new_PuzzleSolver_def b8_one_move_def)

lemma astar_loop_b8_one_move:
  "astar_loop [PuzzleState b8_one_move None None 0 1] {} =
   Some (Inr (Some (PuzzleState goal8 (Some (PuzzleState b8_one_move None None 0 1)) (Some RIGHT) 1 1,
                    {b8_one_move})))"
  apply (subst astar_loop.simps)
  apply (simp add: heap_eval b8_one_move_def goal8_def)
  apply (subst astar_loop.simps)
  apply (simp add: heap_eval b8_one_move_def goal8_def)
  done

lemma is_solvable8_b8_one_move: "is_solvable8 b8_one_move"
  by code_simp

lemma manhattan_b8_one_move: "manhattan_distance8 b8_one_move = 1"
  by (simp add: manhattan_distance8_def cells3 b8_one_move_def)

section \<open>The heap operations keep the items\<close>

declare siftdown_loop.simps [simp del] siftup_loop.simps [simp del]

lemma length_siftdown_loop [simp]: "length (siftdown_loop heap startpos newitem pos) = length heap"
  by (induction heap startpos newitem pos rule: siftdown_loop.induct)
     (subst siftdown_loop.simps, simp add: Let_def)

lemma mset_update2:
  assumes "i < length xs" "j < length xs" "i \<noteq> j"
  shows "mset (xs[i := xs ! j, j := v]) = mset (xs[i := v])"
proof -
  have "mset (xs[i := xs ! j, j := v]) = add_mset v (mset (xs[i := xs ! j]) - {#xs ! j#})"
    using assms by (simp add: mset_update)
  also have "mset (xs[i := xs ! j]) = add_mset (xs ! j) (mset xs - {#xs ! i#})"
    using assms by (simp add: mset_update)
  finally show ?thesis using assms by (simp add: mset_update)
qed

lemma mset_siftdown_loop:
  "pos < length heap \<Longrightarrow> mset (siftdown_loop heap startpos newitem pos) = mset (heap[pos := newitem])"
proof (induction heap startpos newitem pos rule: siftdown_loop.induct)
  case (1 heap startpos newitem pos)
  show ?case
  proof (cases "pos > startpos \<and> lt newitem (heap ! ((pos - 1) div 2))")
    case True
    let ?pp = "(pos - 1) div 2"
    have pp: "?pp < pos" using True by auto
    have "siftdown_loop heap startpos newitem pos =
          siftdown_loop (heap[pos := heap ! ?pp]) startpos newitem ?pp"
      using True by (subst siftdown_loop.simps) (simp add: Let_def)
    also have "mset \<dots> = mset (heap[pos := heap ! ?pp, ?pp := newitem])"
      using "1.IH"[OF _ refl refl] True pp "1.prems" by simp
    also have "\<dots> = mset (heap[pos := newitem])"
      using pp "1.prems" by (intro mset_update2) auto
    finally show ?thesis .
  next
    case False
    then show ?thesis by (subst siftdown_loop.simps) (auto simp: Let_def)
  qed
qed

lemma siftup_loop_props:
  "pos < length heap \<Longrightarrow> siftup_loop heap pos = (heap', pos') \<Longrightarrow>
   length heap' = length heap \<and> pos' < length heap \<and> pos \<le> pos' \<and>
   (\<forall>x. mset (heap'[pos' := x]) = mset (heap[pos := x]))"
proof (induction heap pos arbitrary: heap' pos' rule: siftup_loop.induct)
  case (1 heap pos)
  show ?case
  proof (cases "2 * pos + 1 < length heap")
    case True
    define c where "c = (if 2 * pos + 1 + 1 < length heap \<and> \<not> lt (heap ! (2 * pos + 1)) (heap ! (2 * pos + 1 + 1))
                               then 2 * pos + 1 + 1 else 2 * pos + 1)"
    have c: "c < length heap" "pos < c" using True by (auto simp: c_def)
    have e: "siftup_loop heap pos = siftup_loop (heap[pos := heap ! c]) c"
      using True by (subst siftup_loop.simps) (simp add: Let_def c_def)
    have "length heap' = length (heap[pos := heap ! c]) \<and> pos' < length (heap[pos := heap ! c]) \<and> c \<le> pos' \<and>
          (\<forall>x. mset (heap'[pos' := x]) = mset (heap[pos := heap ! c, c := x]))"
      using "1.IH"[OF refl refl True refl refl, of heap' pos', folded c_def] c "1.prems" e
      by simp
    moreover have "mset (heap[pos := heap ! c, c := x]) = mset (heap[pos := x])" for x
      using c "1.prems" by (intro mset_update2) auto
    ultimately show ?thesis using c by auto
  next
    case False
    then have "siftup_loop heap pos = (heap, pos)" by (subst siftup_loop.simps) (simp add: Let_def)
    with "1.prems" show ?thesis by auto
  qed
qed

lemma mset_heappush: "mset (heappush heap item) = add_mset item (mset heap)"
  unfolding heappush_def siftdown_def by (simp add: mset_siftdown_loop)

lemma mset_heappop:
  assumes "heap \<noteq> []" "heappop heap = (x, heap')"
  shows "mset heap = add_mset x (mset heap')"
proof (cases "butlast heap = []")
  case True
  with assms have "heap = [x]" "heap' = []"
    by (auto simp: heappop_def Let_def) (metis append_butlast_last_id append_Nil)
  then show ?thesis by simp
next
  case False
  let ?h = "(butlast heap)[0 := last heap]"
  obtain h1 p1 where s: "siftup_loop ?h 0 = (h1, p1)" by (cases "siftup_loop ?h 0")
  have l0: "0 < length (butlast heap)" using False by (metis length_greater_0_conv)
  then have l: "0 < length ?h" by simp
  from siftup_loop_props[OF l s] have p: "length h1 = length ?h" "p1 < length ?h"
    "\<And>x. mset (h1[p1 := x]) = mset (?h[0 := x])" by auto
  have x: "x = butlast heap ! 0" and h': "heap' = siftdown (h1[p1 := last heap]) 0 p1"
    using assms False s l by (auto simp: heappop_def Let_def siftup_def)
  have "mset heap' = mset (h1[p1 := last heap])"
    unfolding h' siftdown_def using p(1,2) by (simp add: mset_siftdown_loop)
  also have "\<dots> = mset ?h" using p(3)[of "last heap"] by simp
  also have "\<dots> = add_mset (last heap) (mset (butlast heap) - {#x#})"
    unfolding x by (rule mset_update[OF l0])
  finally have "add_mset x (mset heap') = add_mset (last heap) (mset (butlast heap))"
    using nth_mem[OF l0] x by simp
  also have "\<dots> = mset (butlast heap @ [last heap])" by simp
  finally show ?thesis using assms(1) by simp
qed

section \<open>Nodes of the open set are genuine paths\<close>

lemma get_solution_path_acc_all: "\<forall>mm'. get_solution_path mm' n = get_solution_path [] n @ mm'"
proof (induction n)
  case (PuzzleState b p m d c)
  show ?case
  proof (cases p)
    case None
    then show ?thesis by simp
  next
    case (Some q)
    have "q \<in> set_option p" using Some by simp
    from PuzzleState[OF this]
    have ih: "\<And>mm'. get_solution_path mm' q = get_solution_path [] q @ mm'" by blast
    show ?thesis
    proof
      fix mm'
      have a: "get_solution_path mm' (PuzzleState b (Some q) m d c) = get_solution_path (m # mm') q"
        by simp
      have b: "get_solution_path [] (PuzzleState b (Some q) m d c) = get_solution_path [m] q"
        by simp
      show "get_solution_path mm' (PuzzleState b p m d c) =
                     get_solution_path [] (PuzzleState b p m d c) @ mm'"
        unfolding Some a b ih[of "m # mm'"] ih[of "[m]"] by simp
    qed
  qed
qed

lemma get_solution_path_acc: "get_solution_path mm n = get_solution_path [] n @ mm"
  using get_solution_path_acc_all by blast

lemma apply_moves8_append:
  "apply_moves8 b (xs @ ys) = (case apply_moves8 b xs of None \<Rightarrow> None | Some b' \<Rightarrow> apply_moves8 b' ys)"
  by (induction xs arbitrary: b) (auto split: option.splits)

lemma valid_node_path:
  "valid_node start n \<Longrightarrow>
   apply_moves8 start (get_solution_path [] n) = Some (board n) \<and>
   int (length (get_solution_path [] n)) = depth n \<and> cost n = depth n + manhattan_distance8 (board n)"
proof (induction start n rule: valid_node.induct)
  case (1 start b m d c)
  then show ?case by simp
next
  case (2 start b p m d c)
  then have ih: "apply_moves8 start (get_solution_path [] p) = Some (board p)"
    "int (length (get_solution_path [] p)) = depth p" by auto
  have e: "get_solution_path [] (PuzzleState b (Some p) m d c) = get_solution_path [] p @ [m]"
    using get_solution_path_acc[of "[m]" p] by simp
  show ?case unfolding e using ih "2.prems" by (simp add: apply_moves8_append)
qed

lemma valid_neighbors8:
  assumes "get_neighbors8 s = Inr ns" "valid_node start s" "n \<in> set ns"
  shows "valid_node start n"
proof -
  obtain x y where xy: "get_blank_pos (board s) = Some (x, y)"
    using assms(1) by (auto simp: get_neighbors8_def split: option.splits)
  from assms(1,3) xy obtain mv dx dy where
    n: "n = init_state (swap_cells (board s) (x, y) (nat (int x + dx), nat (int y + dy))) (Some s) (Some mv) (depth s + 1)"
       "(mv, dx, dy) \<in> set moves8" "0 \<le> int x + dx" "int x + dx < 3" "0 \<le> int y + dy" "int y + dy < 3"
    by (auto simp: get_neighbors8_def Let_def split: if_splits)
  have "apply_move8 (board s) (Some mv) = Some (swap_cells (board s) (x, y) (nat (int x + dx), nat (int y + dy)))"
    using n(2-6) xy by (auto simp: apply_move8_def moves8_def)
  then show ?thesis using assms(2) unfolding n(1) init_state_def by simp
qed

lemma set_push_neighbors:
  "set (push_neighbors open_set closed_set ns) \<subseteq> set open_set \<union> set ns"
proof (induction ns arbitrary: open_set)
  case Nil then show ?case by simp
next
  case (Cons n ns)
  have "set (heappush open_set n) = insert n (set open_set)"
    using mset_heappush[of open_set n] by (metis set_mset_mset set_mset_add_mset_insert)
  with Cons.IH[of open_set] Cons.IH[of "heappush open_set n"] show ?case by auto
qed

lemma set_heappop:
  assumes "heap \<noteq> []" "heappop heap = (x, heap')"
  shows "set heap = insert x (set heap')"
  using mset_heappop[OF assms] by (metis set_mset_mset set_mset_add_mset_insert)

lemma astar_loop_valid:
  assumes "astar_loop open_set closed_set = Some r" "\<forall>n \<in> set open_set. valid_node start n"
  shows "case r of Inr (Some (cur, cl)) \<Rightarrow> valid_node start cur \<and> is_goal cur | _ \<Rightarrow> True"
proof -
  have "(\<forall>n \<in> set open_set. valid_node start n) \<longrightarrow>
        (case r of Inr (Some (cur, cl)) \<Rightarrow> valid_node start cur \<and> is_goal cur | _ \<Rightarrow> True)"
  proof (rule astar_loop.raw_induct[where P="\<lambda>open_set closed_set r. (\<forall>n \<in> set open_set. valid_node start n) \<longrightarrow>
        (case r of Inr (Some (cur, cl)) \<Rightarrow> valid_node start cur \<and> is_goal cur | _ \<Rightarrow> True)", OF _ assms(1)])
    fix f open_set closed_set r
    assume 1: "\<And>open_set closed_set r. f open_set closed_set = Some r \<Longrightarrow> (\<forall>n \<in> set open_set. valid_node start n) \<longrightarrow>
        (case r of Inr (Some (cur, cl)) \<Rightarrow> valid_node start cur \<and> is_goal cur | _ \<Rightarrow> True)"
      "(if open_set = [] then Some (Inr None)
        else case heappop open_set of
           (current_state, open1) \<Rightarrow>
             if is_goal current_state
             then Some (Inr (Some (current_state, closed_set)))
             else case get_neighbors8 current_state of Inl e \<Rightarrow> Some (Inl e)
                  | Inr ns \<Rightarrow>
                      f (push_neighbors open1 (insert (board current_state) closed_set) ns)
                        (insert (board current_state) closed_set)) = Some r"
    show "(\<forall>n \<in> set open_set. valid_node start n) \<longrightarrow>
        (case r of Inr (Some (cur, cl)) \<Rightarrow> valid_node start cur \<and> is_goal cur | _ \<Rightarrow> True)"
    proof
      assume v: "\<forall>n \<in> set open_set. valid_node start n"
      show "case r of Inr (Some (cur, cl)) \<Rightarrow> valid_node start cur \<and> is_goal cur | _ \<Rightarrow> True"
      proof (cases "open_set = []")
        case True
        with 1(2) show ?thesis by auto
      next
        case False
        obtain cur open1 where p: "heappop open_set = (cur, open1)" by (cases "heappop open_set")
        from set_heappop[OF False p] v have vc: "valid_node start cur"
          and v1: "\<forall>n \<in> set open1. valid_node start n" by auto
        show ?thesis
        proof (cases "is_goal cur")
          case True
          with 1(2) False p vc show ?thesis by auto
        next
          case ng: False
          show ?thesis
          proof (cases "get_neighbors8 cur")
            case (Inl e)
            with 1(2) False p ng show ?thesis by auto
          next
            case (Inr ns)
            let ?c = "insert (board cur) closed_set"
            have rec: "f (push_neighbors open1 ?c ns) ?c = Some r"
              using 1(2) False p ng Inr by simp
            have "\<forall>n \<in> set (push_neighbors open1 ?c ns). valid_node start n"
              using set_push_neighbors[of open1 ?c ns] v1 valid_neighbors8[OF Inr vc] by blast
            with 1(1)[OF rec] show ?thesis by simp
          qed
        qed
      qed
    qed
  qed
  with assms(2) show ?thesis by simp
qed

section \<open>Returned move sequences\<close>

lemma solve8_round_trip:
  assumes "solve8 (new_PuzzleSolver b) = Some (Inr (Some r, S'))"
  shows "apply_moves8 b (moves r) = Some goal8 \<and> int (length (moves r)) = solution_depth r \<and>
         moves_made S' = moves r"
proof -
  let ?root = "init_state b None None 0"
  have h: "heappush [] ?root = [?root]"
    by (simp add: heappush_def siftdown_def siftdown_loop.simps)
  have v: "\<forall>n \<in> set [?root]. valid_node b n" by (simp add: init_state_def)
  from assms obtain cur cl where
    a: "astar_loop [?root] {} = Some (Inr (Some (cur, cl)))"
    and r: "r = \<lparr>moves = get_solution_path [] cur, nodes_explored = card cl, solution_depth = depth cur\<rparr>"
    and s: "moves_made S' = get_solution_path [] cur"
    by (auto simp: solve8_def new_PuzzleSolver_def h Let_def split: if_splits option.splits sum.splits)
  from astar_loop_valid[OF a v] have c: "valid_node b cur" "is_goal cur" by auto
  from valid_node_path[OF c(1)] c(2) show ?thesis unfolding r using s
    by (simp add: is_goal_def goal8_def)
qed

lemma solve15_round_trip:
  assumes "permutation_board 4 (initial_state15 S)" "solve15 H S max_depth = Inr (Some p, S', out)"
  shows "apply_moves15 (initial_state15 S) p = Some GOAL_STATE"
proof (cases "is_solvable15 (initial_state15 S)")
  case True
  from solve15_shape[OF assms(1) True, of H max_depth] assms(2) show ?thesis by auto
next
  case False
  with assms(2) show ?thesis by (simp add: solve15_def)
qed

lemma solve15_b_one_move_2:
  "\<exists>S' out. solve15 id (new_IDSSolver b_one_move) 2 = Inr (Some [LEFT], S', out)"
proof -
  have u: "map int [0..<2] = [0, 1]" by (simp add: upt_rec numeral_2_eq_2)
  have g: "swap_cells b_one_move (3, 2) (3, 3) = GOAL_STATE" by code_simp
  have p: "get_blank_position b_one_move = Some (3, 2)" by code_simp
  have n: "get_neighbors15 b_one_move = Inr [(GOAL_STATE, LEFT), (swap_cells b_one_move (3,2) (3,1), RIGHT),
       (swap_cells b_one_move (3,2) (2,2), DOWN)]"
    by (simp add: get_neighbors15_def p moves15_def Let_def g)
  show ?thesis
    using solvable_b_one_move manhattan_b_one_move b_one_move_not_goal
    by (simp add: solve15_def new_IDSSolver_def Let_def u n)
qed

lemma solve8_first_call:
  "solve8 (new_PuzzleSolver b8_one_move) =
     Some (Inr (Some \<lparr>moves = [Some RIGHT], nodes_explored = 1, solution_depth = 1\<rparr>,
                \<lparr>initial_state8 = PuzzleState b8_one_move None None 0 1,
                  moves_made = [Some RIGHT]\<rparr>))"
  using is_solvable8_b8_one_move unfolding solve8_def heappush_root_b8_one_move
  by (simp add: astar_loop_b8_one_move new_PuzzleSolver_def init_state_def Let_def
                manhattan_b8_one_move)

lemma solve8_second_call:
  "solve8 \<lparr>initial_state8 = PuzzleState b8_one_move None None 0 1, moves_made = [Some RIGHT]\<rparr> =
     Some (Inr (Some \<lparr>moves = [Some RIGHT, Some RIGHT], nodes_explored = 1, solution_depth = 1\<rparr>,
                \<lparr>initial_state8 = PuzzleState b8_one_move None None 0 1,
                  moves_made = [Some RIGHT, Some RIGHT]\<rparr>))"
proof -
  have r: "heappush [] (PuzzleState b8_one_move None None 0 1) = [PuzzleState b8_one_move None None 0 1]"
    by (simp add: heappush_def siftdown_def siftdown_loop.simps)
  show ?thesis
    using is_solvable8_b8_one_move unfolding solve8_def
    by (simp add: r astar_loop_b8_one_move Let_def)
qed

section \<open>The heap operations keep the heap invariant\<close>

lemma heap_root_min:
  assumes "heap_inv h"
  shows "i < length h \<Longrightarrow> cost (h ! 0) \<le> cost (h ! i)"
proof (induction i rule: less_induct)
  case (less i)
  show ?case
  proof (cases "i = 0")
    case True then show ?thesis by simp
  next
    case False
    then have p: "(i - 1) div 2 < i" by auto
    with less.prems have "cost (h ! 0) \<le> cost (h ! ((i - 1) div 2))" by (intro less.IH) auto
    moreover have "cost (h ! ((i - 1) div 2)) \<le> cost (h ! i)"
      using assms False less.prems by (auto simp: heap_inv_def)
    ultimately show ?thesis by simp
  qed
qed

lemma siftdown_loop_inv:
  assumes "pos < length heap"
    and "\<forall>i. 0 < i \<and> i < length heap \<and> i \<noteq> pos \<longrightarrow>
             cost ((heap[pos := newitem]) ! ((i - 1) div 2)) \<le> cost ((heap[pos := newitem]) ! i)"
    and "\<forall>c. 0 < c \<and> c < length heap \<and> (c - 1) div 2 = pos \<and> 0 < pos \<longrightarrow>
             cost (heap ! ((pos - 1) div 2)) \<le> cost (heap ! c)"
  shows "heap_inv (siftdown_loop heap 0 newitem pos)"
  using assms
proof (induction heap "0::nat" newitem pos rule: siftdown_loop.induct)
  case (1 heap newitem pos)
  let ?pp = "(pos - 1) div 2"
  let ?H = "heap[pos := newitem]"
  note A1 = "1.prems"(2)[rule_format]
  note A2 = "1.prems"(3)[rule_format]
  show ?case
  proof (cases "0 < pos \<and> lt newitem (heap ! ?pp)")
    case True
    then have pp: "?pp < pos" "0 < pos" and lt: "cost newitem < cost (heap ! ?pp)"
      by (auto simp: lt_def)
    let ?h1 = "heap[pos := heap ! ?pp]"
    let ?H1 = "?h1[?pp := newitem]"
    have e: "siftdown_loop heap 0 newitem pos = siftdown_loop ?h1 0 newitem ?pp"
      using True by (subst siftdown_loop.simps) (simp add: Let_def)
    have len: "?pp < length ?h1" using pp "1.prems"(1) by simp
    have edge_pp: "0 < ?pp \<Longrightarrow> cost (heap ! ((?pp - 1) div 2)) \<le> cost (heap ! ?pp)"
    proof -
      assume z: "0 < ?pp"
      then have "(?pp - 1) div 2 < ?pp" by auto
      with A1[of ?pp] z pp "1.prems"(1) show ?thesis by simp
    qed
    have B1: "\<forall>i. 0 < i \<and> i < length ?h1 \<and> i \<noteq> ?pp \<longrightarrow>
             cost (?H1 ! ((i - 1) div 2)) \<le> cost (?H1 ! i)"
    proof (intro allI impI)
      fix i assume i: "0 < i \<and> i < length ?h1 \<and> i \<noteq> ?pp"
      let ?q = "(i - 1) div 2"
      have q: "?q < i" using i by auto
      show "cost (?H1 ! ?q) \<le> cost (?H1 ! i)"
      proof (cases "i = pos")
        case True
        with pp lt "1.prems"(1) show ?thesis by simp
      next
        case ip: False
        have Hi: "?H1 ! i = heap ! i" using i ip by simp
        show ?thesis
        proof (cases "?q = pos")
          case True
          then have "?H1 ! ?q = heap ! ?pp" using pp "1.prems"(1) by simp
          moreover have "cost (heap ! ?pp) \<le> cost (heap ! i)"
            using A2[of i] i True pp by simp
          ultimately show ?thesis using Hi by simp
        next
          case qp: False
          show ?thesis
          proof (cases "?q = ?pp")
            case True
            have "cost (?H ! ?q) \<le> cost (?H ! i)" using A1[of i] i ip by simp
            moreover have "?H ! ?q = heap ! ?pp" using True pp by simp
            moreover have "?H ! i = heap ! i" using ip by simp
            moreover have "?H1 ! ?q = newitem" using True pp "1.prems"(1) by simp
            ultimately show ?thesis using lt Hi by simp
          next
            case False
            have "cost (?H ! ?q) \<le> cost (?H ! i)" using A1[of i] i ip by simp
            moreover have "?H ! ?q = heap ! ?q" using qp by simp
            moreover have "?H ! i = heap ! i" using ip by simp
            moreover have "?H1 ! ?q = heap ! ?q" using False qp by simp
            ultimately show ?thesis using Hi by simp
          qed
        qed
      qed
    qed
    have B2: "\<forall>c. 0 < c \<and> c < length ?h1 \<and> (c - 1) div 2 = ?pp \<and> 0 < ?pp \<longrightarrow>
             cost (?h1 ! ((?pp - 1) div 2)) \<le> cost (?h1 ! c)"
    proof (intro allI impI)
      fix c assume c: "0 < c \<and> c < length ?h1 \<and> (c - 1) div 2 = ?pp \<and> 0 < ?pp"
      then have z: "0 < ?pp" by simp
      then have g: "(?pp - 1) div 2 < ?pp" by auto
      have l: "?h1 ! ((?pp - 1) div 2) = heap ! ((?pp - 1) div 2)" using g pp by simp
      show "cost (?h1 ! ((?pp - 1) div 2)) \<le> cost (?h1 ! c)"
      proof (cases "c = pos")
        case True
        then have "?h1 ! c = heap ! ?pp" using "1.prems"(1) by simp
        with l edge_pp[OF z] show ?thesis by simp
      next
        case False
        then have hc: "?h1 ! c = heap ! c" by simp
        have "cost (?H ! ((c - 1) div 2)) \<le> cost (?H ! c)" using A1[of c] c False by simp
        moreover have "?H ! ((c - 1) div 2) = heap ! ?pp" using c pp by simp
        moreover have "?H ! c = heap ! c" using False by simp
        ultimately show ?thesis using l hc edge_pp[OF z] by simp
      qed
    qed
    show ?thesis unfolding e using True by (intro "1.hyps"[OF _ refl refl _ len B1 B2]) auto
  next
    case False
    then have e: "siftdown_loop heap 0 newitem pos = ?H"
      by (subst siftdown_loop.simps) (auto simp: Let_def)
    have "cost (?H ! ((i - 1) div 2)) \<le> cost (?H ! i)" if i: "0 < i" "i < length ?H" for i
    proof (cases "i = pos")
      case True
      with i False have "cost (heap ! ?pp) \<le> cost newitem" by (auto simp: lt_def)
      moreover have "?pp < pos" using True i by auto
      ultimately show ?thesis using True i by simp
    next
      case False
      with A1[of i] i show ?thesis by simp
    qed
    then show ?thesis unfolding e heap_inv_def by blast
  qed
qed

lemma heappush_inv:
  assumes "heap_inv heap"
  shows "heap_inv (heappush heap item)"
proof -
  let ?h = "heap @ [item]"
  have e: "heappush heap item = siftdown_loop ?h 0 item (length heap)"
    by (simp add: heappush_def siftdown_def)
  have u: "?h[length heap := item] = ?h" by simp
  have A1: "\<forall>i. 0 < i \<and> i < length ?h \<and> i \<noteq> length heap \<longrightarrow>
             cost ((?h[length heap := item]) ! ((i - 1) div 2)) \<le> cost ((?h[length heap := item]) ! i)"
  proof (intro allI impI)
    fix i assume i: "0 < i \<and> i < length ?h \<and> i \<noteq> length heap"
    then have l: "i < length heap" "(i - 1) div 2 < length heap" by auto
    with assms i show "cost ((?h[length heap := item]) ! ((i - 1) div 2)) \<le> cost ((?h[length heap := item]) ! i)"
      unfolding u by (simp add: nth_append heap_inv_def)
  qed
  have A2: "\<forall>c. 0 < c \<and> c < length ?h \<and> (c - 1) div 2 = length heap \<and> 0 < length heap \<longrightarrow>
             cost (?h ! ((length heap - 1) div 2)) \<le> cost (?h ! c)"
    by auto
  show ?thesis unfolding e by (rule siftdown_loop_inv[OF _ A1 A2]) simp
qed

lemma siftup_loop_inv:
  assumes "pos < length heap"
    and "\<forall>i. 0 < i \<and> i < length heap \<and> i \<noteq> pos \<and> (i - 1) div 2 \<noteq> pos \<longrightarrow>
             cost (heap ! ((i - 1) div 2)) \<le> cost (heap ! i)"
    and "\<forall>g. 0 < g \<and> g < length heap \<and> (g - 1) div 2 = pos \<and> 0 < pos \<longrightarrow>
             cost (heap ! ((pos - 1) div 2)) \<le> cost (heap ! g)"
    and "siftup_loop heap pos = (heap', pos')"
  shows "(\<forall>i. 0 < i \<and> i < length heap' \<and> i \<noteq> pos' \<and> (i - 1) div 2 \<noteq> pos' \<longrightarrow>
             cost (heap' ! ((i - 1) div 2)) \<le> cost (heap' ! i)) \<and>
         length heap' \<le> 2 * pos' + 1"
  using assms
proof (induction heap pos arbitrary: heap' pos' rule: siftup_loop.induct)
  case (1 heap pos)
  note I1 = "1.prems"(2)[rule_format]
  note I2 = "1.prems"(3)[rule_format]
  show ?case
  proof (cases "2 * pos + 1 < length heap")
    case True
    define c where "c = (if 2 * pos + 1 + 1 < length heap \<and> \<not> lt (heap ! (2 * pos + 1)) (heap ! (2 * pos + 1 + 1))
                               then 2 * pos + 1 + 1 else 2 * pos + 1)"
    have c: "c < length heap" "pos < c" "(c - 1) div 2 = pos" "0 < c"
      using True by (auto simp: c_def)
    have sib: "cost (heap ! c) \<le> cost (heap ! i)"
      if "0 < i" "i < length heap" "(i - 1) div 2 = pos" for i
    proof -
      from that have "i = 2 * pos + 1 \<or> i = 2 * pos + 2" by auto
      then show ?thesis using that(2) by (auto simp: c_def lt_def)
    qed
    let ?h1 = "heap[pos := heap ! c]"
    have e: "siftup_loop heap pos = siftup_loop ?h1 c"
      using True by (subst siftup_loop.simps) (simp add: Let_def c_def)
    have J1: "\<forall>i. 0 < i \<and> i < length ?h1 \<and> i \<noteq> c \<and> (i - 1) div 2 \<noteq> c \<longrightarrow>
             cost (?h1 ! ((i - 1) div 2)) \<le> cost (?h1 ! i)"
    proof (intro allI impI)
      fix i assume i: "0 < i \<and> i < length ?h1 \<and> i \<noteq> c \<and> (i - 1) div 2 \<noteq> c"
      let ?q = "(i - 1) div 2"
      have q: "?q < i" using i by auto
      show "cost (?h1 ! ?q) \<le> cost (?h1 ! i)"
      proof (cases "i = pos")
        case True
        then have "?h1 ! i = heap ! c" "?h1 ! ?q = heap ! ?q" using q "1.prems"(1) by auto
        moreover have "cost (heap ! ((pos - 1) div 2)) \<le> cost (heap ! c)"
          using I2[of c] c True i by simp
        ultimately show ?thesis using True by simp
      next
        case ip: False
        then have hi: "?h1 ! i = heap ! i" by simp
        show ?thesis
        proof (cases "?q = pos")
          case True
          then have "?h1 ! ?q = heap ! c" using "1.prems"(1) by simp
          with sib[of i] i True hi show ?thesis by simp
        next
          case False
          then have "?h1 ! ?q = heap ! ?q" by simp
          with I1[of i] i ip False hi show ?thesis by simp
        qed
      qed
    qed
    have J2: "\<forall>g. 0 < g \<and> g < length ?h1 \<and> (g - 1) div 2 = c \<and> 0 < c \<longrightarrow>
             cost (?h1 ! ((c - 1) div 2)) \<le> cost (?h1 ! g)"
    proof (intro allI impI)
      fix g assume g: "0 < g \<and> g < length ?h1 \<and> (g - 1) div 2 = c \<and> 0 < c"
      then have "c < g" by auto
      with c have gp: "g \<noteq> pos" by simp
      have "cost (heap ! ((g - 1) div 2)) \<le> cost (heap ! g)"
        using I1[of g] g gp c by simp
      moreover have "?h1 ! ((c - 1) div 2) = heap ! c" using c "1.prems"(1) by simp
      moreover have "?h1 ! g = heap ! g" using gp by simp
      ultimately show "cost (?h1 ! ((c - 1) div 2)) \<le> cost (?h1 ! g)" using g by simp
    qed
    have s: "siftup_loop ?h1 c = (heap', pos')" using "1.prems"(4) e by simp
    have cl: "c < length ?h1" using c by simp
    show ?thesis
      by (rule "1.IH"[OF refl refl True refl refl, folded c_def, OF cl J1 J2 s])
  next
    case False
    then have "siftup_loop heap pos = (heap, pos)" by (subst siftup_loop.simps) (simp add: Let_def)
    with "1.prems"(4) have "heap' = heap" "pos' = pos" by auto
    with "1.prems"(2) False show ?thesis by auto
  qed
qed

lemma heap_inv_butlast: "heap_inv h \<Longrightarrow> heap_inv (butlast h)"
  by (auto simp: heap_inv_def nth_butlast)

lemma heappop_inv:
  assumes "heap \<noteq> []" "heap_inv heap" "heappop heap = (x, heap')"
  shows "heap_inv heap' \<and> (\<forall>n \<in> set heap. cost x \<le> cost n)"
proof (cases "butlast heap = []")
  case True
  with assms have "heap = [x]" "heap' = []"
    by (auto simp: heappop_def Let_def) (metis append_butlast_last_id append_Nil)
  then show ?thesis by (simp add: heap_inv_def)
next
  case False
  let ?b = "butlast heap"
  let ?h = "?b[0 := last heap]"
  obtain h1 p1 where s: "siftup_loop ?h 0 = (h1, p1)" by (cases "siftup_loop ?h 0")
  have l0: "0 < length ?b" using False by (metis length_greater_0_conv)
  then have l: "0 < length ?h" by simp
  have x: "x = ?b ! 0" and h': "heap' = siftdown (h1[p1 := last heap]) 0 p1"
    using assms False s l by (auto simp: heappop_def Let_def siftup_def)
  have x0: "x = heap ! 0" using x l0 by (simp add: nth_butlast)
  have min: "\<forall>n \<in> set heap. cost x \<le> cost n"
    using heap_root_min[OF assms(2)] x0 by (auto simp: in_set_conv_nth)
  have hb: "heap_inv ?b" using assms(2) by (rule heap_inv_butlast)
  have I1: "\<forall>i. 0 < i \<and> i < length ?h \<and> i \<noteq> 0 \<and> (i - 1) div 2 \<noteq> 0 \<longrightarrow>
             cost (?h ! ((i - 1) div 2)) \<le> cost (?h ! i)"
    using hb by (auto simp: heap_inv_def)
  have I2: "\<forall>g. 0 < g \<and> g < length ?h \<and> (g - 1) div 2 = 0 \<and> 0 < (0::nat) \<longrightarrow>
             cost (?h ! ((0 - 1) div 2)) \<le> cost (?h ! g)" by simp
  from siftup_loop_inv[OF l I1 I2 s] have
    K1: "\<And>i. 0 < i \<and> i < length h1 \<and> i \<noteq> p1 \<and> (i - 1) div 2 \<noteq> p1 \<Longrightarrow>
             cost (h1 ! ((i - 1) div 2)) \<le> cost (h1 ! i)"
    and leaf: "length h1 \<le> 2 * p1 + 1" by auto
  from siftup_loop_props[OF l s] have lp: "length h1 = length ?h" "p1 < length ?h" by auto
  let ?h2 = "h1[p1 := last heap]"
  have e: "heap' = siftdown_loop ?h2 0 (last heap) p1"
    unfolding h' siftdown_def using lp by simp
  have A1: "\<forall>i. 0 < i \<and> i < length ?h2 \<and> i \<noteq> p1 \<longrightarrow>
             cost ((?h2[p1 := last heap]) ! ((i - 1) div 2)) \<le> cost ((?h2[p1 := last heap]) ! i)"
  proof (intro allI impI)
    fix i assume i: "0 < i \<and> i < length ?h2 \<and> i \<noteq> p1"
    have np: "(i - 1) div 2 \<noteq> p1"
    proof
      assume "(i - 1) div 2 = p1"
      then have "2 * p1 + 1 \<le> i" using i by auto
      with leaf i show False by simp
    qed
    with K1[of i] i show "cost ((?h2[p1 := last heap]) ! ((i - 1) div 2)) \<le> cost ((?h2[p1 := last heap]) ! i)"
      by simp
  qed
  have A2: "\<forall>c. 0 < c \<and> c < length ?h2 \<and> (c - 1) div 2 = p1 \<and> 0 < p1 \<longrightarrow>
             cost (?h2 ! ((p1 - 1) div 2)) \<le> cost (?h2 ! c)"
  proof (intro allI impI)
    fix c assume c: "0 < c \<and> c < length ?h2 \<and> (c - 1) div 2 = p1 \<and> 0 < p1"
    then have "2 * p1 + 1 \<le> c" by auto
    with leaf c have False by simp
    then show "cost (?h2 ! ((p1 - 1) div 2)) \<le> cost (?h2 ! c)" ..
  qed
  have "heap_inv heap'" unfolding e
    by (rule siftdown_loop_inv[OF _ A1 A2]) (use lp in simp)
  with min show ?thesis by simp
qed

section \<open>Iterations of the best-first loop\<close>

lemma push_neighbors_props:
  "mset (push_neighbors open_set closed_set ns) =
     mset open_set + mset (filter (\<lambda>n. board n \<notin> closed_set) ns) \<and>
   (heap_inv open_set \<longrightarrow> heap_inv (push_neighbors open_set closed_set ns))"
proof (induction ns arbitrary: open_set)
  case Nil
  then show ?case by simp
next
  case (Cons n ns)
  show ?case
  proof (cases "board n \<in> closed_set")
    case True
    with Cons.IH[of open_set] show ?thesis by simp
  next
    case False
    with Cons.IH[of "heappush open_set n"] heappush_inv[of open_set n] mset_heappush[of open_set n]
    show ?thesis by simp
  qed
qed

lemma astar_loop_step:
  assumes "open_set \<noteq> []" "heappop open_set = (cur, open1)"
  shows "is_goal cur \<Longrightarrow> astar_loop open_set closed_set = Some (Inr (Some (cur, closed_set)))"
    and "\<not> is_goal cur \<Longrightarrow> get_neighbors8 cur = Inr ns \<Longrightarrow>
         astar_loop open_set closed_set =
         astar_loop (push_neighbors open1 (insert (board cur) closed_set) ns) (insert (board cur) closed_set)"
  using assms by (subst astar_loop.simps, simp)+







section \<open>Moves, neighbours and the heuristic\<close>

lemma apply_move8_permutation:
  assumes "permutation_board 3 b" "apply_move8 b mo = Some b'"
  shows "permutation_board 3 b'"
proof -
  from assms(2) obtain m x y r c where
    xy: "get_blank_pos b = Some (x, y)" and s: "step_pos m (int x, int y) = (r, c)"
    and bd: "0 \<le> r" "r < 3" "0 \<le> c" "c < 3" and b': "b' = swap_cells b (x, y) (nat r, nat c)"
    by (auto simp: apply_move8_def split: option.splits prod.splits if_splits)
  from get_blank_pos_Some[OF xy] have "x < 3" "y < 3" by auto
  then show ?thesis unfolding b' using assms(1) bd
    by (intro permutation_board_swap_cells) auto
qed

lemma manhattan8_nonneg: "0 \<le> manhattan_distance8 b"
  by (simp add: manhattan_distance8_def cells3 Let_def)

lemma manhattan8_goal: "manhattan_distance8 goal8 = 0"
  by (simp add: manhattan_distance8_def cells3 goal8_def)

lemma neighbors8_complete:
  assumes "get_neighbors8 cur = Inr ns" "apply_move8 (board cur) mo = Some w"
  shows "\<exists>n \<in> set ns. board n = w \<and> depth n = depth cur + 1"
proof -
  from assms(2) obtain m x y r c where
    xy: "get_blank_pos (board cur) = Some (x, y)" and s: "step_pos m (int x, int y) = (r, c)"
    and bd: "0 \<le> r" "r < 3" "0 \<le> c" "c < 3" and w: "w = swap_cells (board cur) (x, y) (nat r, nat c)"
    by (auto simp: apply_move8_def split: option.splits prod.splits if_splits)
  from assms(1) xy s bd w show ?thesis
    by (cases m) (auto simp: get_neighbors8_def moves8_def Let_def init_state_def)
qed

lemma neighbors8_length:
  assumes "get_neighbors8 cur = Inr ns"
  shows "length ns \<le> 4 \<and> (\<forall>n \<in> set ns. depth n = depth cur + 1)"
proof -
  from assms obtain x y where xy: "get_blank_pos (board cur) = Some (x, y)"
    by (auto simp: get_neighbors8_def split: option.splits)
  from assms xy show ?thesis
    by (auto simp: get_neighbors8_def moves8_def Let_def init_state_def)
qed

lemma manhattan8_cells:
  "manhattan_distance8 b =
     tile_dist8 (b ! 0 ! 0) 0 0 + tile_dist8 (b ! 0 ! 1) 0 1 + tile_dist8 (b ! 0 ! 2) 0 2 +
     tile_dist8 (b ! 1 ! 0) 1 0 + tile_dist8 (b ! 1 ! 1) 1 1 + tile_dist8 (b ! 1 ! 2) 1 2 +
     tile_dist8 (b ! 2 ! 0) 2 0 + tile_dist8 (b ! 2 ! 1) 2 1 + tile_dist8 (b ! 2 ! 2) 2 2"
  by (simp add: manhattan_distance8_def cells3 tile_dist8_def Let_def)

lemma abs_adjacent:
  "\<bar>a - a'\<bar> + \<bar>b - b'\<bar> = 1 \<Longrightarrow> \<bar>p - a\<bar> + \<bar>q - b\<bar> \<le> \<bar>p - a'\<bar> + \<bar>q - b'\<bar> + (1::int)"
  by linarith

lemma tile_dist8_adjacent:
  "\<bar>int i - int i'\<bar> + \<bar>int j - int j'\<bar> = 1 \<Longrightarrow> tile_dist8 v i j \<le> tile_dist8 v i' j' + 1"
  using abs_adjacent[of "int i" "int i'" "int j" "int j'" "(v - 1) div 3" "(v - 1) mod 3"]
  by (simp add: tile_dist8_def)

lemma tile_dist8_blank: "tile_dist8 0 i j = 0"
  by (simp add: tile_dist8_def)

lemma less3_cases: "(x::nat) < 3 \<Longrightarrow> x = 0 \<or> x = 1 \<or> x = 2"
  by auto

lemma manhattan8_swap:
  assumes g: "grid 3 b" and x: "x < 3" "y < 3" and z: "b ! x ! y = 0"
    and r: "r < 3" "c < 3" and adj: "orth_adjacent (x, y) (r, c)"
  shows "manhattan_distance8 b \<le> manhattan_distance8 (swap_cells b (x, y) (r, c)) + 1"
proof -
  from grid3_vars[OF g] obtain a1 a2 a3 a4 a5 a6 a7 a8 a9 where
    b: "b = [[a1,a2,a3],[a4,a5,a6],[a7,a8,a9]]" by blast
  have k: "tile_dist8 (b ! r ! c) r c \<le> tile_dist8 (b ! r ! c) x y + 1"
    using adj by (intro tile_dist8_adjacent) (auto simp: orth_adjacent_def)
  from less3_cases[OF x(1)] less3_cases[OF x(2)] less3_cases[OF r(1)] less3_cases[OF r(2)]
  show ?thesis
    using z k adj unfolding manhattan8_cells b
    by (elim disjE) (simp_all add: swap_cells_def tile_dist8_blank orth_adjacent_def)
qed

lemma manhattan8_step:
  assumes "permutation_board 3 b" "apply_move8 b mo = Some b'"
  shows "manhattan_distance8 b \<le> manhattan_distance8 b' + 1"
proof -
  from assms(2) obtain m x y r c where
    xy: "get_blank_pos b = Some (x, y)" and s: "step_pos m (int x, int y) = (r, c)"
    and bd: "0 \<le> r" "r < 3" "0 \<le> c" "c < 3" and b': "b' = swap_cells b (x, y) (nat r, nat c)"
    by (auto simp: apply_move8_def split: option.splits prod.splits if_splits)
  from get_blank_pos_Some[OF xy] have x: "x < 3" "y < 3" "b ! x ! y = 0" by auto
  have g: "grid 3 b" using assms(1) by (simp add: permutation_board_def)
  have a: "orth_adjacent (x, y) (nat r, nat c)" by (rule step_pos_adjacent[OF s bd(1) bd(3)])
  show ?thesis unfolding b' using bd by (intro manhattan8_swap[OF g x _ _ a]) auto
qed

section \<open>Inversion parity\<close>

lemma foldl_count:
  "foldl (\<lambda>acc j. if P j then acc + 1 else acc) a js = a + length (filter P js)"
  by (induction js arbitrary: a) auto

lemma foldl_add:
  "foldl (\<lambda>acc i. acc + g i) a is = a + sum_list (map g is)"
  by (induction "is" arbitrary: a) (auto simp: add.assoc)

lemma count_inversions_sum:
  "count_inversions fb = sum_list (map (\<lambda>i. length (filter (\<lambda>j. fb ! i > fb ! j) [i + 1..<length fb])) [0..<length fb])"
proof -
  have "count_inversions fb =
        foldl (\<lambda>acc i. acc + length (filter (\<lambda>j. fb ! i > fb ! j) [i + 1..<length fb])) 0 [0..<length fb]"
    unfolding count_inversions_def by (simp add: foldl_count)
  then show ?thesis by (simp add: foldl_add)
qed

lemma filter_index_length:
  "length (filter (\<lambda>j. P (xs ! j)) [0..<length xs]) = length (filter P xs)"
proof -
  have "filter P xs = filter P (map (\<lambda>j. xs ! j) [0..<length xs])" by (simp add: map_nth)
  also have "length \<dots> = length (filter (\<lambda>j. P (xs ! j)) [0..<length xs])"
    by (simp add: filter_map o_def)
  finally show ?thesis by simp
qed

lemma count_inversions_inv_count: "count_inversions fb = inv_count fb"
proof (induction fb)
  case Nil
  then show ?case by (simp add: count_inversions_sum)
next
  case (Cons x xs)
  let ?n = "length xs"
  have u: "[0..<length (x # xs)] = 0 # map Suc [0..<?n]"
    by (simp add: upt_conv_Cons map_Suc_upt del: upt_Suc)
  have s: "[Suc i + 1..<length (x # xs)] = map Suc [i + 1..<?n]" for i
    by (simp add: map_Suc_upt del: upt_Suc)
  have z: "[0 + 1..<length (x # xs)] = map Suc [0..<?n]"
    by (simp add: map_Suc_upt del: upt_Suc)
  have a: "length (filter (\<lambda>j. (x # xs) ! 0 > (x # xs) ! j) [0 + 1..<length (x # xs)]) =
           length (filter (\<lambda>y. x > y) xs)"
    unfolding z using filter_index_length[of "\<lambda>y. x > y" xs] by (simp add: filter_map o_def)
  have b: "length (filter (\<lambda>j. (x # xs) ! Suc i > (x # xs) ! j) [Suc i + 1..<length (x # xs)]) =
           length (filter (\<lambda>j. xs ! i > xs ! j) [i + 1..<?n])" for i
    unfolding s by (simp add: filter_map o_def)
  have "count_inversions (x # xs) =
        length (filter (\<lambda>y. x > y) xs) +
        sum_list (map (\<lambda>i. length (filter (\<lambda>j. xs ! i > xs ! j) [i + 1..<?n])) [0..<?n])"
    unfolding count_inversions_sum u using a b by (simp add: o_def del: upt_Suc)
  also have "\<dots> = length (filter (\<lambda>y. x > y) xs) + count_inversions xs"
    by (simp add: count_inversions_sum)
  finally show ?case using Cons.IH by simp
qed

lemma inv_count_swap_adjacent:
  "a \<noteq> c \<Longrightarrow> even (inv_count (xs @ a # c # ys)) \<noteq> even (inv_count (xs @ c # a # ys))"
proof (induction xs)
  case Nil
  then show ?case by (cases "a > c") auto
next
  case (Cons x xs)
  then show ?case by simp
qed

lemma inv_even_peel:
  "mset l1 = mset l2 \<Longrightarrow> inv_even l1 = inv_even l2 \<Longrightarrow> inv_even (x # l1) = inv_even (x # l2)"
proof -
  assume m: "mset l1 = mset l2" and e: "inv_even l1 = inv_even l2"
  have "length (filter (\<lambda>y. x > y) l1) = length (filter (\<lambda>y. x > y) l2)"
    using m by (metis mset_filter size_mset)
  with e show ?thesis by (simp add: inv_even_def)
qed

lemma inv_even_jump2:
  assumes "t \<noteq> u" "t \<noteq> v"
  shows "inv_even (t # u # v # ys) = inv_even (u # v # t # ys)"
proof -
  have a: "even (inv_count (t # u # v # ys)) \<noteq> even (inv_count (u # t # v # ys))"
    using inv_count_swap_adjacent[OF assms(1), of "[]" "v # ys"] by (simp del: inv_count.simps)
  have b: "even (inv_count (u # t # v # ys)) \<noteq> even (inv_count (u # v # t # ys))"
    using inv_count_swap_adjacent[OF assms(2), of "[u]" ys] by (simp del: inv_count.simps)
  from a b show ?thesis unfolding inv_even_def by blast
qed

lemma inv_even_jump2': "t \<noteq> u \<Longrightarrow> t \<noteq> v \<Longrightarrow> inv_even (u # v # t # ys) = inv_even (t # u # v # ys)"
  by (rule sym) (rule inv_even_jump2)

lemma is_solvable8_inv_even: "is_solvable8 b = inv_even (flat_board b)"
  by (simp add: is_solvable8_def count_inversions_inv_count inv_even_def even_iff_mod_2_eq_zero)

lemma parity8_swap:
  assumes p: "permutation_board 3 b" and x: "x < 3" "y < 3" and z: "b ! x ! y = 0"
    and r: "r < 3" "c < 3" and adj: "orth_adjacent (x, y) (r, c)"
  shows "is_solvable8 (swap_cells b (x, y) (r, c)) = is_solvable8 b"
proof -
  have g: "grid 3 b" and d: "distinct (concat b)" using p by (auto simp: permutation_board_def)
  from grid3_vars[OF g] obtain a1 a2 a3 a4 a5 a6 a7 a8 a9 where
    b: "b = [[a1,a2,a3],[a4,a5,a6],[a7,a8,a9]]" by blast
  from less3_cases[OF x(1)] less3_cases[OF x(2)] less3_cases[OF r(1)] less3_cases[OF r(2)]
  show ?thesis
    using z adj d unfolding is_solvable8_inv_even b
    apply (elim disjE)
    apply (simp_all add: swap_cells_def flat_board_def orth_adjacent_def)
    apply (safe intro!: inv_even_peel inv_even_jump2 inv_even_jump2')
    apply simp_all
    done
qed

section \<open>Optimality and termination of the best-first loop\<close>

lemma apply_moves8_permutation:
  "permutation_board 3 a \<Longrightarrow> apply_moves8 a ms = Some b \<Longrightarrow> permutation_board 3 b"
proof (induction ms arbitrary: a)
  case Nil then show ?case by simp
next
  case (Cons m ms)
  then obtain a' where a': "apply_move8 a m = Some a'" "apply_moves8 a' ms = Some b"
    by (auto split: option.splits)
  from apply_move8_permutation[OF Cons.prems(1) a'(1)] Cons.IH a'(2) show ?case by blast
qed

lemma manhattan8_within:
  "permutation_board 3 a \<Longrightarrow> within8 a b j \<Longrightarrow> manhattan_distance8 a \<le> int j + manhattan_distance8 b"
proof -
  have "permutation_board 3 a \<Longrightarrow> apply_moves8 a ms = Some b \<Longrightarrow>
        manhattan_distance8 a \<le> int (length ms) + manhattan_distance8 b" for ms
  proof (induction ms arbitrary: a)
    case Nil then show ?case by simp
  next
    case (Cons m ms)
    then obtain a' where a': "apply_move8 a m = Some a'" "apply_moves8 a' ms = Some b"
      by (auto split: option.splits)
    from manhattan8_step[OF Cons.prems(1) a'(1)] Cons.IH[OF apply_move8_permutation[OF Cons.prems(1) a'(1)] a'(2)]
    show ?case by simp
  qed
  then show "permutation_board 3 a \<Longrightarrow> within8 a b j \<Longrightarrow> manhattan_distance8 a \<le> int j + manhattan_distance8 b"
    unfolding within8_def by fastforce
qed

lemma valid_node_permutation:
  "permutation_board 3 start \<Longrightarrow> valid_node start n \<Longrightarrow> permutation_board 3 (board n)"
  using valid_node_path[of start n] apply_moves8_permutation by blast

lemma within8_refl: "within8 a a 0"
  unfolding within8_def by (rule exI[of _ "[]"]) simp

lemma within8_step:
  assumes "within8 a u j" "apply_move8 u mo = Some v"
  shows "within8 a v (Suc j)"
proof -
  from assms(1) obtain ms where ms: "length ms \<le> j" "apply_moves8 a ms = Some u"
    unfolding within8_def by blast
  have "apply_moves8 a (ms @ [mo]) = Some v" using ms(2) assms(2) by (simp add: apply_moves8_append)
  with ms(1) show ?thesis unfolding within8_def by (intro exI[of _ "ms @ [mo]"]) simp
qed

lemma frontier_node:
  assumes "astar_inv start open_set closed_set"
  shows "apply_moves8 start ms = Some v \<Longrightarrow> v \<notin> closed_set \<Longrightarrow>
         \<exists>n \<in> set open_set. \<exists>j. depth n + int j \<le> int (length ms) \<and> within8 (board n) v j"
proof (induction ms arbitrary: v rule: rev_induct)
  case Nil
  then have "v = start" by simp
  with Nil assms obtain n where "n \<in> set open_set" "board n = start" "depth n = 0"
    unfolding astar_inv_def by blast
  with \<open>v = start\<close> within8_refl[of start] show ?case by (intro bexI[of _ n] exI[of _ 0]) auto
next
  case (snoc mo ms)
  from snoc.prems(1) obtain u where u: "apply_moves8 start ms = Some u" "apply_move8 u mo = Some v"
    by (auto simp: apply_moves8_append split: option.splits)
  show ?case
  proof (cases "u \<in> closed_set")
    case True
    have w: "within8 start u (length ms)" unfolding within8_def using u(1) by blast
    from assms True w u(2) snoc.prems(2) obtain n where
      n: "n \<in> set open_set" "board n = v" "depth n \<le> int (length ms) + 1"
      unfolding astar_inv_def by blast
    with within8_refl[of v] show ?thesis by (intro bexI[of _ n] exI[of _ 0]) auto
  next
    case False
    from snoc.IH[OF u(1) False] obtain n j where
      n: "n \<in> set open_set" "depth n + int j \<le> int (length ms)" "within8 (board n) u j" by blast
    from within8_step[OF n(3) u(2)] n(1,2) show ?thesis
      by (intro bexI[of _ n] exI[of _ "Suc j"]) auto
  qed
qed

lemma pop_bound:
  assumes "astar_inv start open_set closed_set" "permutation_board 3 start"
    and "within8 start v k" "v \<notin> closed_set"
  shows "open_set \<noteq> [] \<and> (heappop open_set = (cur, open1) \<longrightarrow> cost cur \<le> int k + manhattan_distance8 v)"
proof -
  from assms(3) obtain ms where ms: "length ms \<le> k" "apply_moves8 start ms = Some v"
    unfolding within8_def by blast
  from frontier_node[OF assms(1) ms(2) assms(4)] obtain n j where
    n: "n \<in> set open_set" "depth n + int j \<le> int (length ms)" "within8 (board n) v j" by blast
  have ne: "open_set \<noteq> []" using n(1) by auto
  have vn: "valid_node start n" using assms(1) n(1) unfolding astar_inv_def by blast
  have c: "cost n = depth n + manhattan_distance8 (board n)" using valid_node_path[OF vn] by simp
  have "manhattan_distance8 (board n) \<le> int j + manhattan_distance8 v"
    by (rule manhattan8_within[OF valid_node_permutation[OF assms(2) vn] n(3)])
  with c n(2) ms(1) have cn: "cost n \<le> int k + manhattan_distance8 v" by simp
  have "cost cur \<le> int k + manhattan_distance8 v" if p: "heappop open_set = (cur, open1)"
  proof -
    have hi: "heap_inv open_set" using assms(1) unfolding astar_inv_def by blast
    from heappop_inv[OF ne hi p] n(1) have "cost cur \<le> cost n" by blast
    with cn show ?thesis by simp
  qed
  with ne show ?thesis by blast
qed

lemma astar_inv_step:
  assumes inv: "astar_inv start open_set closed_set" and perm: "permutation_board 3 start"
    and ne: "open_set \<noteq> []" and pop: "heappop open_set = (cur, open1)"
    and ng: "\<not> is_goal cur" and ns: "get_neighbors8 cur = Inr ns"
  shows "astar_inv start (push_neighbors open1 (insert (board cur) closed_set) ns)
                         (insert (board cur) closed_set)"
proof -
  let ?c = "insert (board cur) closed_set"
  let ?o = "push_neighbors open1 ?c ns"
  have hi: "heap_inv open_set" and val: "\<forall>n \<in> set open_set. valid_node start n"
    and k2: "start \<in> closed_set \<or> (\<exists>n \<in> set open_set. board n = start \<and> depth n = 0)"
    and k3: "goal8 \<notin> closed_set"
    and k1: "\<And>c k w mo. c \<in> closed_set \<Longrightarrow> within8 start c k \<Longrightarrow> apply_move8 c mo = Some w \<Longrightarrow>
          w \<in> closed_set \<or> (\<exists>n \<in> set open_set. board n = w \<and> depth n \<le> int k + 1)"
    using inv unfolding astar_inv_def by blast+
  have so: "set open_set = insert cur (set open1)" by (rule set_heappop[OF ne pop])
  have h1: "heap_inv open1" using heappop_inv[OF ne hi pop] by simp
  have pp: "mset ?o = mset open1 + mset (filter (\<lambda>n. board n \<notin> ?c) ns)" "heap_inv ?o"
    using push_neighbors_props[of open1 ?c ns] h1 by auto
  have sn: "set ?o = set open1 \<union> {n \<in> set ns. board n \<notin> ?c}"
  proof -
    have "set ?o = set_mset (mset ?o)" by simp
    also have "\<dots> = set open1 \<union> set (filter (\<lambda>n. board n \<notin> ?c) ns)" unfolding pp(1) by simp
    finally show ?thesis by auto
  qed
  have vc: "valid_node start cur" using val so by simp
  have v': "\<forall>n \<in> set ?o. valid_node start n"
    using sn val so valid_neighbors8[OF ns vc] by auto
  have k2': "start \<in> ?c \<or> (\<exists>n \<in> set ?o. board n = start \<and> depth n = 0)"
  proof (cases "start \<in> ?c")
    case True then show ?thesis by simp
  next
    case False
    with k2 obtain n where n: "n \<in> set open_set" "board n = start" "depth n = 0" by auto
    with False have "n \<noteq> cur" by auto
    with n so sn have "n \<in> set ?o" by auto
    with n show ?thesis by blast
  qed
  have k3': "goal8 \<notin> ?c" using k3 ng by (auto simp: is_goal_def goal8_def)
  have k1': "w \<in> ?c \<or> (\<exists>n \<in> set ?o. board n = w \<and> depth n \<le> int k + 1)"
    if c: "c \<in> ?c" and w: "within8 start c k" and m: "apply_move8 c mo = Some w" for c k w mo
  proof (cases "w \<in> ?c")
    case True then show ?thesis by simp
  next
    case wn: False
    show ?thesis
    proof (cases "c \<in> closed_set")
      case True
      from k1[OF True w m] wn obtain n where n: "n \<in> set open_set" "board n = w" "depth n \<le> int k + 1"
        by auto
      with wn have "n \<noteq> cur" by auto
      with n so sn have "n \<in> set ?o" by auto
      with n show ?thesis by blast
    next
      case False
      with c have cb: "c = board cur" by simp
      from pop_bound[OF inv perm w False, of cur open1] pop
      have "cost cur \<le> int k + manhattan_distance8 c" by simp
      moreover have "cost cur = depth cur + manhattan_distance8 (board cur)"
        using valid_node_path[OF vc] by simp
      ultimately have d: "depth cur \<le> int k" using cb by simp
      from neighbors8_complete[OF ns m[unfolded cb]] obtain n where
        n: "n \<in> set ns" "board n = w" "depth n = depth cur + 1" by blast
      with wn sn have "n \<in> set ?o" by auto
      with n d show ?thesis by (intro disjI2 bexI[of _ n]) auto
    qed
  qed
  show ?thesis unfolding astar_inv_def using pp(2) v' k2' k3' k1' by blast
qed

lemma open_weight_mset: "mset xs = mset ys \<Longrightarrow> open_weight C xs = open_weight C ys"
  unfolding open_weight_def by (metis mset_map sum_mset_sum_list)

lemma sum_list_bound:
  "(\<forall>x \<in> set xs. f x \<le> (B::nat)) \<Longrightarrow> sum_list (map f xs) \<le> length xs * B"
  by (induction xs) auto

lemma weight_decrease:
  assumes ne: "open_set \<noteq> []" and pop: "heappop open_set = (cur, open1)"
    and ns: "get_neighbors8 cur = Inr ns" and d: "depth cur \<le> int C"
  shows "open_weight C (push_neighbors open1 closed_set ns) < open_weight C open_set"
proof -
  have m1: "mset open_set = mset (cur # open1)" using mset_heappop[OF ne pop] by simp
  have m2: "mset (push_neighbors open1 closed_set ns) = mset (open1 @ filter (\<lambda>n. board n \<notin> closed_set) ns)"
    using push_neighbors_props[of open1 closed_set ns] by simp
  have w1: "open_weight C open_set = node_weight C cur + open_weight C open1"
    using open_weight_mset[OF m1] by (simp add: open_weight_def)
  have w2: "open_weight C (push_neighbors open1 closed_set ns) =
            open_weight C open1 + open_weight C (filter (\<lambda>n. board n \<notin> closed_set) ns)"
    using open_weight_mset[OF m2] by (simp add: open_weight_def)
  from neighbors8_length[OF ns] have l: "length ns \<le> 4" and dn: "\<forall>n \<in> set ns. depth n = depth cur + 1"
    by auto
  have wc: "node_weight C cur = 5 ^ nat (int C - depth cur)" using d by (simp add: node_weight_def)
  have "open_weight C (filter (\<lambda>n. board n \<notin> closed_set) ns) < node_weight C cur"
  proof (cases "depth cur < int C")
    case True
    define e where "e = nat (int C - depth cur - 1)"
    have e: "nat (int C - depth cur) = Suc e" using True by (simp add: e_def)
    have b: "\<forall>n \<in> set (filter (\<lambda>n. board n \<notin> closed_set) ns). node_weight C n \<le> 5 ^ e"
      using dn True by (auto simp: node_weight_def e_def)
    have "open_weight C (filter (\<lambda>n. board n \<notin> closed_set) ns)
            \<le> length (filter (\<lambda>n. board n \<notin> closed_set) ns) * 5 ^ e"
      unfolding open_weight_def by (rule sum_list_bound[OF b])
    also have "\<dots> \<le> 4 * 5 ^ e"
    proof -
      have "length (filter (\<lambda>n. board n \<notin> closed_set) ns) \<le> 4"
        using l length_filter_le[of "\<lambda>n. board n \<notin> closed_set" ns] by linarith
      then show ?thesis by simp
    qed
    also have "\<dots> < 5 ^ Suc e" by simp
    finally show ?thesis unfolding wc e .
  next
    case False
    with d have eq: "depth cur = int C" by simp
    have b: "\<forall>n \<in> set (filter (\<lambda>n. board n \<notin> closed_set) ns). node_weight C n \<le> 0"
      using dn eq by (auto simp: node_weight_def)
    have "open_weight C (filter (\<lambda>n. board n \<notin> closed_set) ns)
            \<le> length (filter (\<lambda>n. board n \<notin> closed_set) ns) * 0"
      unfolding open_weight_def by (rule sum_list_bound[OF b])
    then show ?thesis unfolding wc using eq by simp
  qed
  with w1 w2 show ?thesis by simp
qed

lemma astar_loop_optimal:
  assumes perm: "permutation_board 3 start" and reach: "within8 start goal8 C"
  shows "astar_inv start open_set closed_set \<Longrightarrow>
         \<exists>cur cl. astar_loop open_set closed_set = Some (Inr (Some (cur, cl))) \<and>
                  valid_node start cur \<and> is_goal cur \<and>
                  (\<forall>k. within8 start goal8 k \<longrightarrow> depth cur \<le> int k)"
proof (induction "open_weight C open_set" arbitrary: open_set closed_set rule: less_induct)
  case less
  note inv = less.prems
  have gn: "goal8 \<notin> closed_set" using inv unfolding astar_inv_def by blast
  obtain cur open1 where pop: "heappop open_set = (cur, open1)" by (cases "heappop open_set")
  from pop_bound[OF inv perm reach gn, of cur open1] pop
  have ne: "open_set \<noteq> []" and cb: "cost cur \<le> int C + manhattan_distance8 goal8" by auto
  have vc: "valid_node start cur"
    using inv set_heappop[OF ne pop] unfolding astar_inv_def by auto
  have cc: "cost cur = depth cur + manhattan_distance8 (board cur)"
    using valid_node_path[OF vc] by simp
  show ?case
  proof (cases "is_goal cur")
    case True
    then have bg: "board cur = goal8" by (simp add: is_goal_def goal8_def)
    have "depth cur \<le> int k" if "within8 start goal8 k" for k
      using pop_bound[OF inv perm that gn, of cur open1] pop cc bg manhattan8_goal by simp
    with astar_loop_step(1)[OF ne pop True] vc True show ?thesis by blast
  next
    case False
    have pc: "permutation_board 3 (board cur)" by (rule valid_node_permutation[OF perm vc])
    from get_neighbors8_permutation[OF pc] obtain ns where ns: "get_neighbors8 cur = Inr ns" by blast
    let ?c = "insert (board cur) closed_set"
    let ?o = "push_neighbors open1 ?c ns"
    have inv': "astar_inv start ?o ?c" by (rule astar_inv_step[OF inv perm ne pop False ns])
    have d: "depth cur \<le> int C"
      using cb cc manhattan8_goal manhattan8_nonneg[of "board cur"] by simp
    have dec: "open_weight C ?o < open_weight C open_set"
      by (rule weight_decrease[OF ne pop ns d])
    from less.hyps[OF dec inv'] astar_loop_step(2)[OF ne pop False ns, of closed_set]
    show ?thesis by simp
  qed
qed

section \<open>Move labels of the two engines\<close>



section \<open>Neighbour generation keeps the board invariant\<close>

text \<open>
  Claim C10. For a permutation board (3x3 for the 8-puzzle state, 4x4 for the 15-puzzle
  state) \<open>get_neighbors\<close> raises nothing, and every board it produces is again a
  permutation board that differs from the parent only by exchanging the blank cell with
  one orthogonally adjacent in-bounds cell. The expansion works on copies of the rows, so
  each 8-puzzle neighbour still points to the unchanged parent state.
\<close>

theorem get_neighbors_permutation:
  "(permutation_board 3 (board s) \<longrightarrow>
     (\<exists>p ns. get_blank_pos (board s) = Some p \<and> get_neighbors8 s = Inr ns \<and>
        (\<forall>n \<in> set ns. permutation_board 3 (board n) \<and> parent n = Some s \<and>
           (\<exists>q. fst q < 3 \<and> snd q < 3 \<and> orth_adjacent p q \<and>
                board s ! fst p ! snd p = 0 \<and> swapped_at 3 (board s) (board n) p q)))) \<and>
   (permutation_board 4 b \<longrightarrow>
     (\<exists>p ns. get_blank_position b = Some p \<and> get_neighbors15 b = Inr ns \<and>
        (\<forall>(b', m) \<in> set ns. permutation_board 4 b' \<and>
           (\<exists>q. fst q < 4 \<and> snd q < 4 \<and> orth_adjacent p q \<and>
                b ! fst p ! snd p = 0 \<and> swapped_at 4 b b' p q))))"
  using get_neighbors8_permutation[of s] get_neighbors15_permutation[of b] by blast

theorem get_neighbors_permutation_witness:
  "permutation_board 3 (board (init_state [[1,2,3],[4,5,6],[7,8,0]] None None 0)) \<and>
   permutation_board 4 GOAL_STATE \<and>
   (\<exists>p ns. get_blank_pos [[1,2,3],[4,5,6],[7,8,0]] = Some p \<and>
       get_neighbors8 (init_state [[1,2,3],[4,5,6],[7,8,0]] None None 0) = Inr ns) \<and>
   (\<exists>p ns. get_blank_position GOAL_STATE = Some p \<and> get_neighbors15 GOAL_STATE = Inr ns)"
proof -
  let ?s = "init_state [[1,2,3],[4,5,6],[7,8,0]] None None 0"
  have b: "board ?s = [[1,2,3],[4,5,6],[7,8,0]]" by (simp add: init_state_def)
  have h1: "permutation_board 3 (board ?s)"
    unfolding b by (auto simp: permutation_board_def grid_def upt_rec)
  have h2: "permutation_board 4 GOAL_STATE"
    by (auto simp: permutation_board_def grid_def GOAL_STATE_def upt_rec)
  from get_neighbors_permutation[of ?s GOAL_STATE] h1 h2 b show ?thesis by auto
qed

section \<open>Termination of the iterative-deepening engine\<close>

text \<open>
  Claim C8. The iterative-deepening engine terminates on every input board. The
  depth-limited search is a total function: its recursion is well-founded on the remaining
  depth budget (the termination proof of \<open>dls\<close>), and on a permutation board it returns a
  boolean without raising. The outer loop of \<open>solve\<close> prints and searches the depth bounds
  0, 1, ... in order, at most \<open>max_depth\<close> of them, and returns either a solution or
  \<open>None\<close>; it returns \<open>None\<close> only when the parity test failed or every bound below
  \<open>max_depth\<close> was tried.
\<close>

theorem ids_terminates:
  assumes "permutation_board 4 (initial_state15 S)"
  shows "(\<exists>found S'. dls H S (initial_state15 S) d path = Inr (found, S')) \<and>
         (\<exists>res S' k. solve15 H S max_depth = Inr (res, S', map int [0..<k]) \<and> k \<le> nat max_depth \<and>
            (res = None \<longrightarrow> \<not> is_solvable15 (initial_state15 S) \<or> k = nat max_depth))"
proof -
  from dls_sound(1)[OF assms, of path d S H]
  have a: "\<exists>found S'. dls H S (initial_state15 S) d path = Inr (found, S')"
    unfolding dls_ok_def by (elim exE conjE) (intro exI)
  have b: "\<exists>res S' k. solve15 H S max_depth = Inr (res, S', map int [0..<k]) \<and> k \<le> nat max_depth \<and>
            (res = None \<longrightarrow> \<not> is_solvable15 (initial_state15 S) \<or> k = nat max_depth)"
  proof (cases "is_solvable15 (initial_state15 S)")
    case True
    from solve15_shape[OF assms True, of H max_depth] obtain res S' k where
      r: "solve15 H S max_depth = Inr (res, S', map int [0..<k])" "k \<le> nat max_depth"
         "(case res of None \<Rightarrow> k = nat max_depth
            | Some p \<Rightarrow> apply_moves15 (initial_state15 S) p = Some GOAL_STATE \<and> 0 < k \<and>
                        length p < k)" by (elim exE conjE)
    from r(3) have "res = None \<longrightarrow> k = nat max_depth" by (cases res) auto
    with r(1,2) show ?thesis by (intro exI[of _ res] exI[of _ S'] exI[of _ k]) simp
  next
    case False
    then show ?thesis
      by (intro exI[of _ None] exI[of _ S] exI[of _ 0]) (simp add: solve15_def)
  qed
  from a b show ?thesis by (rule conjI)
qed

theorem ids_terminates_witness:
  "permutation_board 4 (initial_state15 (new_IDSSolver b_one_move :: board IDSSolver)) \<and>
   (\<exists>res S' k. solve15 id (new_IDSSolver b_one_move) 1 = Inr (res, S', map int [0..<k]) \<and> k \<le> 1)"
proof -
  have h: "permutation_board 4 (initial_state15 (new_IDSSolver b_one_move :: board IDSSolver))"
    using permutation_b_one_move by (simp add: new_IDSSolver_def)
  from ids_terminates[OF h, of id 0 "[]" 1] h show ?thesis by auto
qed

section \<open>Failure kinds of the iterative-deepening engine\<close>

text \<open>
  Claim C6, as stated, fails: \<open>solve\<close> returns the same value \<open>None\<close> when the parity test
  fails and when the depth cap is exhausted. The board \<open>b_unsolvable\<close> fails the parity test;
  the board \<open>b_one_move\<close> passes it and is not solved within \<open>max_depth = 1\<close>.
\<close>

theorem failure_kinds_counterexample:
  "\<not> is_solvable15 b_unsolvable \<and> is_solvable15 b_one_move \<and>
   fst (projr (solve15 id (new_IDSSolver b_unsolvable) 31)) = None \<and>
   fst (projr (solve15 id (new_IDSSolver b_one_move) 1)) = None \<and>
   fst (projr (solve15 id (new_IDSSolver b_unsolvable) 31)) =
   fst (projr (solve15 id (new_IDSSolver b_one_move) 1))"
  using not_solvable_b_unsolvable solvable_b_one_move
  by (simp add: solve15_b_unsolvable solve15_b_one_move)

text \<open>
  Claim C6, amended. Both failure kinds return \<open>None\<close>. When the parity test fails,
  \<open>solve\<close> returns \<open>None\<close> at once: no depth is searched and the solver is unchanged. When
  the parity test passes and \<open>solve\<close> returns \<open>None\<close>, every depth bound below \<open>max_depth\<close>
  has been searched. The two kinds are told apart by \<open>is_solvable\<close>, not by the returned value.
\<close>

theorem failure_kinds_same_value:
  assumes "permutation_board 4 (initial_state15 S)"
  shows "(\<not> is_solvable15 (initial_state15 S) \<longrightarrow> solve15 H S max_depth = Inr (None, S, [])) \<and>
         (is_solvable15 (initial_state15 S) \<longrightarrow>
            (\<exists>res S' out. solve15 H S max_depth = Inr (res, S', out) \<and>
               (res = None \<longrightarrow> out = map int [0..<nat max_depth])))"
proof (intro conjI impI)
  assume "\<not> is_solvable15 (initial_state15 S)"
  then show "solve15 H S max_depth = Inr (None, S, [])" by (simp add: solve15_def)
next
  assume s: "is_solvable15 (initial_state15 S)"
  from solve15_shape[OF assms s, of H max_depth] obtain res S' k where
      r: "solve15 H S max_depth = Inr (res, S', map int [0..<k])" "k \<le> nat max_depth"
         "(case res of None \<Rightarrow> k = nat max_depth
            | Some p \<Rightarrow> apply_moves15 (initial_state15 S) p = Some GOAL_STATE \<and> 0 < k \<and>
                        length p < k)" by (elim exE conjE)
  from r(3) have "res = None \<longrightarrow> k = nat max_depth" by (cases res) auto
  with r(1) show "\<exists>res S' out. solve15 H S max_depth = Inr (res, S', out) \<and>
               (res = None \<longrightarrow> out = map int [0..<nat max_depth])"
    by (intro exI[of _ res] exI[of _ S'] exI[of _ "map int [0..<k]"]) auto
qed

theorem failure_kinds_same_value_witness:
  "permutation_board 4 (initial_state15 (new_IDSSolver b_unsolvable :: board IDSSolver)) \<and>
   permutation_board 4 (initial_state15 (new_IDSSolver b_one_move :: board IDSSolver)) \<and>
   solve15 id (new_IDSSolver b_unsolvable) 31 = Inr (None, new_IDSSolver b_unsolvable, []) \<and>
   (\<exists>res S' out. solve15 id (new_IDSSolver b_one_move) 1 = Inr (res, S', out) \<and> res = None \<and> out = [0])"
proof -
  have h1: "permutation_board 4 (initial_state15 (new_IDSSolver b_unsolvable :: board IDSSolver))"
    using permutation_b_unsolvable by (simp add: new_IDSSolver_def)
  have h2: "permutation_board 4 (initial_state15 (new_IDSSolver b_one_move :: board IDSSolver))"
    using permutation_b_one_move by (simp add: new_IDSSolver_def)
  have n: "\<not> is_solvable15 (initial_state15 (new_IDSSolver b_unsolvable :: board IDSSolver))"
    using not_solvable_b_unsolvable by (simp add: new_IDSSolver_def)
  from failure_kinds_same_value[OF h1, of id 31] n
  have a: "solve15 id (new_IDSSolver b_unsolvable) 31 = Inr (None, new_IDSSolver b_unsolvable, [])"
    by simp
  from failure_kinds_same_value[OF h2, of id 1]
  have "\<exists>res S' out. solve15 id (new_IDSSolver b_one_move) 1 = Inr (res, S', out) \<and> res = None \<and> out = [0]"
    by (simp add: solve15_b_one_move)
  with h1 h2 a show ?thesis by simp
qed

section \<open>Repeated invocation of the best-first solver\<close>

text \<open>
  Claim C7 does not hold for the code. \<open>get_solution_path\<close> inserts the moves into
  \<open>self.moves_made\<close>, which is set to the empty list only by the constructor. On the board
  \<open>b8_one_move\<close> the first call of \<open>solve\<close> returns the moves \<open>[RIGHT]\<close> and leaves them in
  the solver; the second call on the same solver returns \<open>[RIGHT, RIGHT]\<close>.
\<close>

theorem solve8_twice:
  "solve8 (new_PuzzleSolver b8_one_move) =
     Some (Inr (Some \<lparr>moves = [Some RIGHT], nodes_explored = 1, solution_depth = 1\<rparr>,
                \<lparr>initial_state8 = PuzzleState b8_one_move None None 0 1,
                  moves_made = [Some RIGHT]\<rparr>)) \<and>
   solve8 \<lparr>initial_state8 = PuzzleState b8_one_move None None 0 1, moves_made = [Some RIGHT]\<rparr> =
     Some (Inr (Some \<lparr>moves = [Some RIGHT, Some RIGHT], nodes_explored = 1, solution_depth = 1\<rparr>,
                \<lparr>initial_state8 = PuzzleState b8_one_move None None 0 1,
                  moves_made = [Some RIGHT, Some RIGHT]\<rparr>))"
  using solve8_first_call solve8_second_call by (rule conjI)

section \<open>Round trip of the returned moves\<close>

text \<open>
  Claim C4 does not hold for the code. On the board \<open>b8_one_move\<close> the first call of
  \<open>solve\<close> returns the moves \<open>[RIGHT]\<close>, whose replay on the initial board gives the goal
  board. The second call on the same solver returns \<open>[RIGHT, RIGHT]\<close> with
  \<open>solution_depth\<close> 1: \<open>get_solution_path\<close> has inserted the path in front of the moves
  left in \<open>self.moves_made\<close>. Replaying this returned sequence on the initial board fails
  at the second move (the blank is already in the last column) and does not give the goal
  board.
\<close>

theorem second_solution_misses_goal:
  "solve8 (new_PuzzleSolver b8_one_move) =
     Some (Inr (Some \<lparr>moves = [Some RIGHT], nodes_explored = 1, solution_depth = 1\<rparr>,
                \<lparr>initial_state8 = PuzzleState b8_one_move None None 0 1,
                  moves_made = [Some RIGHT]\<rparr>)) \<and>
   replay8 b8_one_move [Some RIGHT] = Some goal8 \<and>
   solve8 \<lparr>initial_state8 = PuzzleState b8_one_move None None 0 1, moves_made = [Some RIGHT]\<rparr> =
     Some (Inr (Some \<lparr>moves = [Some RIGHT, Some RIGHT], nodes_explored = 1, solution_depth = 1\<rparr>,
                \<lparr>initial_state8 = PuzzleState b8_one_move None None 0 1,
                  moves_made = [Some RIGHT, Some RIGHT]\<rparr>)) \<and>
   replay8 b8_one_move [Some RIGHT, Some RIGHT] = None \<and>
   replay8 b8_one_move [Some RIGHT, Some RIGHT] \<noteq> Some goal8"
proof -
  have r1: "replay8 b8_one_move [Some RIGHT] = Some goal8"
    by (simp add: replay_move_def blank_cells_def cells3 b8_one_move_def goal8_def swap_cells_def)
  have r2: "replay8 b8_one_move [Some RIGHT, Some RIGHT] = None"
    by (simp add: replay_move_def blank_cells_def cells3 b8_one_move_def swap_cells_def)
  from solve8_first_call r1 solve8_second_call r2 show ?thesis by simp
qed

section \<open>The steps of the best-first engine\<close>




end
